theory Spec2Isabelle
  imports Main
begin

section \<open>Text and character classes\<close>

text \<open>
  The two modules (\<^verbatim>\<open>app/main.py\<close>, the obsolete MB transaction rule, and
  \<^verbatim>\<open>app/main1.py\<close>, the SELECT rule) work on Python \<^verbatim>\<open>str\<close> values with the
  \<^verbatim>\<open>re\<close> module. Code text is modelled as a \<^typ>\<open>string\<close>, one \<^typ>\<open>char\<close> per code
  point. The classes \<^verbatim>\<open>\s\<close> and \<^verbatim>\<open>\w\<close>, \<^verbatim>\<open>str.upper\<close> and the case folding of
  \<^verbatim>\<open>re.IGNORECASE\<close> are those of Python on the ASCII code points; a character
  with a code of 128 or more is neither whitespace nor a word character and has no case.
  The model is therefore exact for ASCII code text.
\<close>

definition ascii_uppercase :: string where
  "ascii_uppercase = ''ABCDEFGHIJKLMNOPQRSTUVWXYZ''"

definition ascii_lowercase :: string where
  "ascii_lowercase = ''abcdefghijklmnopqrstuvwxyz''"

definition digits :: string where
  "digits = ''0123456789''"

text \<open>\<^verbatim>\<open>\s\<close> of a \<^verbatim>\<open>str\<close> pattern, and the characters \<^verbatim>\<open>str.strip()\<close> removes: tab, line feed,
  vertical tab, form feed, carriage return, the four separators 0x1C..0x1F, and the space.\<close>

definition is_space :: "char \<Rightarrow> bool" where
  "is_space c = (c \<in> set [CHR 0x09, CHR 0x0A, CHR 0x0B, CHR 0x0C, CHR 0x0D,
                           CHR 0x1C, CHR 0x1D, CHR 0x1E, CHR 0x1F, CHR 0x20])"

text \<open>\<^verbatim>\<open>\w\<close>: letters, digits and the underscore.\<close>

definition is_word :: "char \<Rightarrow> bool" where
  "is_word c = (c \<in> set (ascii_lowercase @ ascii_uppercase @ digits @ ''_''))"

definition lower :: "char \<Rightarrow> char" where
  "lower c = (case map_of (zip ascii_uppercase ascii_lowercase) c of None \<Rightarrow> c | Some d \<Rightarrow> d)"

definition upper :: "char \<Rightarrow> char" where
  "upper c = (case map_of (zip ascii_lowercase ascii_uppercase) c of None \<Rightarrow> c | Some d \<Rightarrow> d)"

text \<open>\<^verbatim>\<open>s.upper()\<close>.\<close>

definition str_upper :: "string \<Rightarrow> string" where
  "str_upper s = map upper s"

text \<open>\<^verbatim>\<open>s.startswith(p)\<close>.\<close>

definition startswith :: "string \<Rightarrow> string \<Rightarrow> bool" where
  "startswith s p = (take (length p) s = p)"

text \<open>\<^verbatim>\<open>s[a:b]\<close> for offsets \<open>0 \<le> a \<le> b\<close>.\<close>

definition slice :: "string \<Rightarrow> nat \<Rightarrow> nat \<Rightarrow> string" where
  "slice s a b = take (b - a) (drop a s)"

text \<open>
  The same classes on the bits of a character (bit 0 first), as code equations: the
  kernel evaluates a class test in a few steps instead of comparing with every member.
\<close>

definition alpha5 :: "bool \<Rightarrow> bool \<Rightarrow> bool \<Rightarrow> bool \<Rightarrow> bool \<Rightarrow> bool" where
  "alpha5 b0 b1 b2 b3 b4 =
     ((b0 \<or> b1 \<or> b2 \<or> b3 \<or> b4) \<and> \<not> (b4 \<and> b3 \<and> (b2 \<or> (b1 \<and> b0))))"

lemma is_space_code [code]:
  "is_space (Char b0 b1 b2 b3 b4 b5 b6 b7) =
     (\<not> b7 \<and> \<not> b6 \<and> (if b5 then \<not> b4 \<and> \<not> b3 \<and> \<not> b2 \<and> \<not> b1 \<and> \<not> b0
        else if b4 then b3 \<and> b2 else b3 \<and> (b0 \<or> b1 \<or> b2) \<and> \<not> (b2 \<and> b1)))"
  by (cases b0; cases b1; cases b2; cases b3; cases b4; cases b5; cases b6; cases b7;
      simp add: is_space_def)

lemma is_word_code [code]:
  "is_word (Char b0 b1 b2 b3 b4 b5 b6 b7) =
     (\<not> b7 \<and> (if b6 then alpha5 b0 b1 b2 b3 b4 \<or> (\<not> b5 \<and> b4 \<and> b3 \<and> b2 \<and> b1 \<and> b0)
        else b5 \<and> b4 \<and> \<not> (b3 \<and> (b2 \<or> b1))))"
  by (cases b0; cases b1; cases b2; cases b3; cases b4; cases b5; cases b6; cases b7;
      simp add: is_word_def alpha5_def ascii_lowercase_def ascii_uppercase_def digits_def)

lemma lower_code [code]:
  "lower (Char b0 b1 b2 b3 b4 b5 b6 b7) =
     (if \<not> b7 \<and> b6 \<and> \<not> b5 \<and> alpha5 b0 b1 b2 b3 b4 then Char b0 b1 b2 b3 b4 True b6 b7
      else Char b0 b1 b2 b3 b4 b5 b6 b7)"
  by (cases b0; cases b1; cases b2; cases b3; cases b4; cases b5; cases b6; cases b7;
      simp add: lower_def alpha5_def ascii_lowercase_def ascii_uppercase_def)


section \<open>The backtracking matcher of \<^verbatim>\<open>re\<close>\<close>

text \<open>
  The patterns of the two modules use literals (all four patterns are compiled with
  \<^verbatim>\<open>re.IGNORECASE\<close>, so a literal is compared through \<^const>\<open>lower\<close>), character
  classes, sequence, ordered alternation, the greedy \<^verbatim>\<open>?\<close>, the greedy \<^verbatim>\<open>*\<close> and \<^verbatim>\<open>+\<close> and
  the lazy \<^verbatim>\<open>*?\<close> on a single character class, named groups, and \<^verbatim>\<open>\b\<close>.
  \<^verbatim>\<open>Uni n\<close> is a literal whose code point \<open>n\<close> lies outside the modelled alphabet (the
  Greek letters of one entry of \<^verbatim>\<open>OBSOLETE_MB_TXNS\<close>); it matches no character.
\<close>

datatype rx =
    Lit char
  | Uni nat
  | Cls "char \<Rightarrow> bool"
  | Seq rx rx
  | Alt rx rx
  | Opt rx
  | Star "char \<Rightarrow> bool"
  | StarLazy "char \<Rightarrow> bool"
  | Grp string rx
  | WordB

text \<open>
  A state of the matcher: the offset reached, the character before it (for \<^verbatim>\<open>\b\<close>), the
  text still ahead, and the groups closed so far (name, start, end; the latest first).
\<close>

type_synonym caps = "(string \<times> nat \<times> nat) list"
type_synonym mstate = "nat \<times> char option \<times> string \<times> caps"

text \<open>
  \<^verbatim>\<open>rmatch r st\<close> lists the states in which \<open>r\<close> can end when started in \<open>st\<close>, in the
  order in which the backtracking engine tries them: the head is the match it reports.
\<close>

fun run_greedy :: "(char \<Rightarrow> bool) \<Rightarrow> caps \<Rightarrow> nat \<Rightarrow> char option \<Rightarrow> string \<Rightarrow> mstate list" where
  "run_greedy p g i q [] = [(i, q, [], g)]"
| "run_greedy p g i q (c # cs) =
     (if p c then run_greedy p g (Suc i) (Some c) cs @ [(i, q, c # cs, g)]
      else [(i, q, c # cs, g)])"

fun run_lazy :: "(char \<Rightarrow> bool) \<Rightarrow> caps \<Rightarrow> nat \<Rightarrow> char option \<Rightarrow> string \<Rightarrow> mstate list" where
  "run_lazy p g i q [] = [(i, q, [], g)]"
| "run_lazy p g i q (c # cs) =
     (i, q, c # cs, g) # (if p c then run_lazy p g (Suc i) (Some c) cs else [])"

definition at_boundary :: "char option \<Rightarrow> string \<Rightarrow> bool" where
  "at_boundary q cs =
     ((case q of None \<Rightarrow> False | Some c \<Rightarrow> is_word c) \<noteq>
      (case cs of [] \<Rightarrow> False | c # _ \<Rightarrow> is_word c))"

fun rmatch :: "rx \<Rightarrow> mstate \<Rightarrow> mstate list" where
  "rmatch (Lit c) (i, q, [], g) = []"
| "rmatch (Lit c) (i, q, x # xs, g) =
     (if lower x = lower c then [(Suc i, Some x, xs, g)] else [])"
| "rmatch (Uni n) st = []"
| "rmatch (Cls p) (i, q, [], g) = []"
| "rmatch (Cls p) (i, q, x # xs, g) = (if p x then [(Suc i, Some x, xs, g)] else [])"
| "rmatch (Seq a b) st = concat (map (rmatch b) (rmatch a st))"
| "rmatch (Alt a b) st = rmatch a st @ rmatch b st"
| "rmatch (Opt a) st = rmatch a st @ [st]"
| "rmatch (Star p) (i, q, cs, g) = run_greedy p g i q cs"
| "rmatch (StarLazy p) (i, q, cs, g) = run_lazy p g i q cs"
| "rmatch (Grp n a) (i, q, cs, g) =
     map (\<lambda>(j, q', cs', g'). (j, q', cs', (n, i, j) # g')) (rmatch a (i, q, cs, g))"
| "rmatch WordB (i, q, cs, g) = (if at_boundary q cs then [(i, q, cs, g)] else [])"

text \<open>\<^verbatim>\<open>X+\<close> is \<^verbatim>\<open>XX*\<close>; a word is the sequence of its letters; \<^verbatim>\<open>a|b|c\<close>.\<close>

definition Plus :: "(char \<Rightarrow> bool) \<Rightarrow> rx" where
  "Plus p = Seq (Cls p) (Star p)"

fun lits :: "string \<Rightarrow> rx" where
  "lits [] = Opt (Uni 0)"
| "lits [c] = Lit c"
| "lits (c # cs) = Seq (Lit c) (lits cs)"

fun alts :: "rx list \<Rightarrow> rx" where
  "alts [] = Uni 0"
| "alts [r] = r"
| "alts (r # rs) = Alt r (alts rs)"

text \<open>
  \<^verbatim>\<open>pattern.search\<close>: the leftmost offset at which the pattern matches, with the first
  match there. The result is the start offset and the end state.
\<close>

fun search :: "rx \<Rightarrow> nat \<Rightarrow> char option \<Rightarrow> string \<Rightarrow> (nat \<times> mstate) option" where
  "search r i q [] =
     (case rmatch r (i, q, [], []) of m # _ \<Rightarrow> Some (i, m) | [] \<Rightarrow> None)"
| "search r i q (c # cs) =
     (case rmatch r (i, q, c # cs, []) of
        m # _ \<Rightarrow> Some (i, m)
      | [] \<Rightarrow> search r (Suc i) (Some c) cs)"

lemma run_greedy_len:
  "(j, q', cs', g') \<in> set (run_greedy p g i q cs) \<Longrightarrow> j + length cs' = i + length cs \<and> i \<le> j"
  by (induction p g i q cs rule: run_greedy.induct) (auto split: if_splits)

lemma run_lazy_len:
  "(j, q', cs', g') \<in> set (run_lazy p g i q cs) \<Longrightarrow> j + length cs' = i + length cs \<and> i \<le> j"
  by (induction p g i q cs rule: run_lazy.induct) (auto split: if_splits)

lemma rmatch_len:
  "(j, q', cs', g') \<in> set (rmatch r (i, q, cs, g)) \<Longrightarrow> j + length cs' = i + length cs \<and> i \<le> j"
proof (induction r arbitrary: i q cs g j q' cs' g')
  case (Lit c)
  then show ?case by (cases cs) (auto split: if_splits)
next
  case (Cls p)
  then show ?case by (cases cs) (auto split: if_splits)
next
  case (Seq a b)
  from Seq.prems obtain k qk ck gk where
    1: "(k, qk, ck, gk) \<in> set (rmatch a (i, q, cs, g))" and
    2: "(j, q', cs', g') \<in> set (rmatch b (k, qk, ck, gk))"
    by auto
  from Seq.IH(1)[OF 1] Seq.IH(2)[OF 2] show ?case by simp
next
  case (Star p)
  then show ?case using run_greedy_len by simp
next
  case (StarLazy p)
  then show ?case using run_lazy_len by simp
qed (auto split: if_splits)

lemma search_len:
  "search r i q cs = Some (b, j, q', cs', g') \<Longrightarrow>
     i \<le> b \<and> b \<le> j \<and> j + length cs' = i + length cs"
proof (induction r i q cs rule: search.induct)
  case (1 r i q)
  then obtain ms where "rmatch r (i, q, [], []) = (j, q', cs', g') # ms" and "b = i"
    by (auto split: list.splits)
  then have "(j, q', cs', g') \<in> set (rmatch r (i, q, [], []))" by simp
  from rmatch_len[OF this] \<open>b = i\<close> show ?case by simp
next
  case (2 r i q c cs)
  show ?case
  proof (cases "rmatch r (i, q, c # cs, [])")
    case Nil
    with 2 show ?thesis by auto
  next
    case (Cons m ms)
    with "2.prems" have "m = (j, q', cs', g')" and "b = i" by auto
    with Cons have "(j, q', cs', g') \<in> set (rmatch r (i, q, c # cs, []))" by simp
    from rmatch_len[OF this] \<open>b = i\<close> show ?thesis by simp
  qed
qed

text \<open>
  \<^verbatim>\<open>pattern.finditer\<close>: the matches from left to right, each search resuming where the
  previous match ended. After an empty match the scan moves on by one character; no
  pattern of the two modules matches the empty string. A match is reported as its start,
  its end and its groups.
\<close>

function finditer :: "rx \<Rightarrow> nat \<Rightarrow> char option \<Rightarrow> string \<Rightarrow> (nat \<times> nat \<times> caps) list" where
  "finditer r i q cs =
     (case search r i q cs of
        None \<Rightarrow> []
      | Some (b, e, q', cs', g) \<Rightarrow>
          (b, e, g) #
          (if b < e then finditer r e q' cs'
           else case cs' of [] \<Rightarrow> [] | c # cs'' \<Rightarrow> finditer r (Suc e) (Some c) cs''))"
  by pat_completeness auto
termination
proof (relation "measure (\<lambda>(r, i, q, cs). length cs)")
  show "wf (measure (\<lambda>(r, i, q, cs). length cs))" by simp
next
  fix r i q cs x2 b y e ya q' yb cs' g
  assume "search r i q cs = Some x2" "(b, y) = x2" "(e, ya) = y" "(q', yb) = ya" "(cs', g) = yb" "b < e"
  then have "search r i q cs = Some (b, e, q', cs', g)" by simp
  from search_len[OF this] \<open>b < e\<close>
  show "((r, e, q', cs'), r, i, q, cs) \<in> measure (\<lambda>(r, i, q, cs). length cs)" by simp
next
  fix r i q cs x2 b y e ya q' yb cs' g c cs''
  assume "search r i q cs = Some x2" "(b, y) = x2" "(e, ya) = y" "(q', yb) = ya" "(cs', g) = yb"
    "cs' = c # cs''"
  then have "search r i q cs = Some (b, e, q', c # cs'', g)" by simp
  from search_len[OF this]
  show "((r, Suc e, Some c, cs''), r, i, q, cs) \<in> measure (\<lambda>(r, i, q, cs). length cs)" by simp
qed

declare finditer.simps [simp del]

section \<open>Python values\<close>

text \<open>
  The exceptions the two modules can raise on a match: \<^verbatim>\<open>None.upper()\<close> is an
  \<^verbatim>\<open>AttributeError\<close>, \<^verbatim>\<open>re.search(pattern, None)\<close> a \<^verbatim>\<open>TypeError\<close>.
\<close>

datatype py_error = AttributeError | TypeError

text \<open>The values of the dictionaries the endpoints return; a dictionary keeps its keys in
  insertion order.\<close>

datatype pyval =
    PNone
  | PBool bool
  | PInt int
  | PStr string
  | PList "pyval list"
  | PDict "(string \<times> pyval) list"

type_synonym pydict = "(string \<times> pyval) list"

text \<open>\<^verbatim>\<open>d[k] = v\<close>: an existing key keeps its place, a new key is added at the end.\<close>

fun dict_set :: "string \<Rightarrow> pyval \<Rightarrow> pydict \<Rightarrow> pydict" where
  "dict_set k v [] = [(k, v)]"
| "dict_set k v ((k', v') # d) = (if k = k' then (k, v) # d else (k', v') # dict_set k v d)"

definition opt_str :: "string option \<Rightarrow> pyval" where
  "opt_str x = (case x of None \<Rightarrow> PNone | Some s \<Rightarrow> PStr s)"

definition opt_int :: "int option \<Rightarrow> pyval" where
  "opt_int x = (case x of None \<Rightarrow> PNone | Some n \<Rightarrow> PInt n)"

text \<open>The truth value of an \<^verbatim>\<open>Optional[str]\<close>: \<^verbatim>\<open>None\<close> and the empty string are false.\<close>

fun truthy :: "string option \<Rightarrow> bool" where
  "truthy None = False"
| "truthy (Some []) = False"
| "truthy (Some (c # cs)) = True"

text \<open>A loop that stops at the first exception.\<close>

fun traverse :: "('a \<Rightarrow> py_error + 'b) \<Rightarrow> 'a list \<Rightarrow> py_error + 'b list" where
  "traverse f [] = Inr []"
| "traverse f (x # xs) =
     (case f x of
        Inl err \<Rightarrow> Inl err
      | Inr y \<Rightarrow> (case traverse f xs of Inl err \<Rightarrow> Inl err | Inr ys \<Rightarrow> Inr (y # ys)))"

text \<open>
  The match object: \<^verbatim>\<open>m.span(name)\<close> is \<^verbatim>\<open>(-1, -1)\<close> and \<^verbatim>\<open>m.group(name)\<close> is
  \<^verbatim>\<open>None\<close> for a group that took no part in the match; otherwise the group is the slice
  of the text at its span.
\<close>

definition span_of :: "caps \<Rightarrow> string \<Rightarrow> int \<times> int" where
  "span_of g n = (case map_of g n of None \<Rightarrow> (- 1, - 1) | Some (a, b) \<Rightarrow> (int a, int b))"

definition group :: "string \<Rightarrow> caps \<Rightarrow> string \<Rightarrow> string option" where
  "group txt g n = (case map_of g n of None \<Rightarrow> None | Some (a, b) \<Rightarrow> Some (slice txt a b))"

text \<open>\<^verbatim>\<open>class Unit(BaseModel)\<close>, the same in both modules.\<close>

record Unit =
  pgm_name :: string
  inc_name :: string
  type :: string
  name :: "string option"
  class_implementation :: "string option"
  start_line :: "int option"
  end_line :: "int option"
  code :: "string option"

text \<open>\<^verbatim>\<open>json.loads(u.model_dump_json())\<close>: the fields of the unit, in their order.\<close>

definition model_dump :: "Unit \<Rightarrow> pydict" where
  "model_dump u =
     [(''pgm_name'', PStr (pgm_name u)),
      (''inc_name'', PStr (inc_name u)),
      (''type'', PStr (type u)),
      (''name'', opt_str (name u)),
      (''class_implementation'', opt_str (class_implementation u)),
      (''start_line'', opt_int (start_line u)),
      (''end_line'', opt_int (end_line u)),
      (''code'', opt_str (code u))]"

text \<open>\<^verbatim>\<open>u.code or ""\<close>.\<close>

definition code_or_empty :: "Unit \<Rightarrow> string" where
  "code_or_empty u = (case code u of None \<Rightarrow> [] | Some c \<Rightarrow> c)"

section \<open>The obsolete MB transaction rule (app/main.py)\<close>

text \<open>
  \<^verbatim>\<open>OBSOLETE_MB_TXNS\<close>, in the order of the source; the sixth entry is written with the
  Greek capitals Mu, Beta, Theta, Alpha.
\<close>

definition OBSOLETE_MB_TXNS :: "rx list" where
  "OBSOLETE_MB_TXNS =
     [lits ''MB01'', lits ''MB02'', lits ''MB03'', lits ''MB04'', lits ''MB05'',
      Seq (Uni 0x39C) (Seq (Uni 0x392) (Seq (Uni 0x398) (Uni 0x391))),
      lits ''MB11'', lits ''MB1A'', lits ''MB18'', lits ''MBC'', lits ''MB31'', lits ''MBNL'',
      lits ''MBRL'', lits ''MBSF'', lits ''MBSL'', lits ''MBST'', lits ''MBSU'']"

definition quote :: "char \<Rightarrow> bool" where
  "quote c = (c \<in> set [CHR 0x27, CHR 0x22])"

text \<open>
  \<^verbatim>\<open>(?P<full>(?P<stmt>CALL\s+TRANSACTION|SUBMIT)\s+['"]?(?P<txn>MB01|...)['"]?\s*\.?)\<close>
\<close>

definition MB_TXN_RE :: rx where
  "MB_TXN_RE =
     Grp ''full''
       (Seq (Grp ''stmt''
               (Alt (Seq (lits ''CALL'') (Seq (Plus is_space) (lits ''TRANSACTION'')))
                    (lits ''SUBMIT'')))
       (Seq (Plus is_space)
       (Seq (Opt (Cls quote))
       (Seq (Grp ''txn'' (alts OBSOLETE_MB_TXNS))
       (Seq (Opt (Cls quote))
       (Seq (Star is_space)
            (Opt (Lit CHR ''.''))))))))"

definition suggest_replacement :: "string \<Rightarrow> string" where
  "suggest_replacement stmt =
     (let stmt_up = str_upper stmt in
      if startswith stmt_up ''SUBMIT'' then ''SUBMIT MIGO.''
      else ''CALL TRANSACTION '' @ [CHR 0x27] @ ''MIGO'' @ [CHR 0x27] @ ''.'')"

record mb_usage =
  full :: "string option"
  stmt :: string
  txn :: "string option"
  suggested_statement :: string
  span :: "int \<times> int"

text \<open>One iteration of the loop of \<^verbatim>\<open>find_mb_txn_usage\<close>; \<^verbatim>\<open>suggest_replacement\<close> calls
  \<^verbatim>\<open>stmt.upper()\<close>, which raises when the group is \<^verbatim>\<open>None\<close>.\<close>

definition mb_usage_of :: "string \<Rightarrow> nat \<times> nat \<times> caps \<Rightarrow> py_error + mb_usage" where
  "mb_usage_of txt m =
     (case m of (b, e, g) \<Rightarrow>
        (case group txt g ''stmt'' of
           None \<Rightarrow> Inl AttributeError
         | Some st \<Rightarrow>
             Inr \<lparr> full = group txt g ''full'',
                   stmt = st,
                   txn = group txt g ''txn'',
                   suggested_statement = suggest_replacement st,
                   span = span_of g ''full'' \<rparr>))"

definition find_mb_txn_usage :: "string \<Rightarrow> py_error + mb_usage list" where
  "find_mb_txn_usage txt = traverse (mb_usage_of txt) (finditer MB_TXN_RE 0 None txt)"

definition mb_metadata :: "mb_usage \<Rightarrow> pyval" where
  "mb_metadata m =
     PDict [(''table'', PStr ''None''),
            (''target_type'', PStr ''None''),
            (''target_name'', PStr ''None''),
            (''used_fields'', PList []),
            (''ambiguous'', PBool False),
            (''obsolete_mb_txn'', opt_str (txn m)),
            (''obsolete_txn'', opt_str (txn m)),
            (''start_char_in_unit'', PInt (fst (span m))),
            (''end_char_in_unit'', PInt (snd (span m))),
            (''suggested_statement'', PStr (suggested_statement m)),
            (''suggested_fields'', PNone),
            (''note'', PStr ''Replace obsolete MB transaction with MIGO per SAP Note 1804812.'')]"

definition remediate_mb_unit :: "Unit \<Rightarrow> py_error + pydict" where
  "remediate_mb_unit u =
     (case find_mb_txn_usage (code_or_empty u) of
        Inl err \<Rightarrow> Inl err
      | Inr matches \<Rightarrow>
          Inr (dict_set ''mb_txn_usage'' (PList (map mb_metadata matches)) (model_dump u)))"

definition remediate_mb_txns :: "Unit list \<Rightarrow> py_error + pydict list" where
  "remediate_mb_txns units = traverse remediate_mb_unit units"

section \<open>The SELECT rule (app/main1.py)\<close>

definition fields_cls :: "char \<Rightarrow> bool" where
  "fields_cls c = (is_word c \<or> is_space c \<or> c \<in> set '',*'')"

definition dest_cls :: "char \<Rightarrow> bool" where
  "dest_cls c = (is_word c \<or> c \<in> set ''@()->'')"

text \<open>The dot under \<^verbatim>\<open>re.DOTALL\<close>.\<close>

definition any_char :: "char \<Rightarrow> bool" where
  "any_char c = True"

text \<open>
  \<^verbatim>\<open>(?P<full>SELECT\s+(?:SINGLE\s+)?(?P<fields>[\w\s,*]+)\s+FROM\s+(?P<table>\w+)(?P<middle>.*?)\<close>
  \<^verbatim>\<open>(?:(?:INTO\s+TABLE\s+(?P<into_tab>[\w@()\->]+))|(?:INTO\s+(?P<into_wa>[\w@()\->]+)))\<close>
  \<^verbatim>\<open>(?P<tail>.*?))\.\<close>: the period is outside the group \<^verbatim>\<open>full\<close>.
\<close>

definition SELECT_RE :: rx where
  "SELECT_RE =
     Seq (Grp ''full''
       (Seq (lits ''SELECT'')
       (Seq (Plus is_space)
       (Seq (Opt (Seq (lits ''SINGLE'') (Plus is_space)))
       (Seq (Grp ''fields'' (Plus fields_cls))
       (Seq (Plus is_space)
       (Seq (lits ''FROM'')
       (Seq (Plus is_space)
       (Seq (Grp ''table'' (Plus is_word))
       (Seq (Grp ''middle'' (StarLazy any_char))
       (Seq (Alt (Seq (lits ''INTO'') (Seq (Plus is_space) (Seq (lits ''TABLE'')
                    (Seq (Plus is_space) (Grp ''into_tab'' (Plus dest_cls))))))
                 (Seq (lits ''INTO'') (Seq (Plus is_space) (Grp ''into_wa'' (Plus dest_cls)))))
            (Grp ''tail'' (StarLazy any_char)))))))))))))
     (Lit CHR ''.'')"

text \<open>
  The pattern of the DRAFT check,
  \<^verbatim>\<open>rf"{table_up}-DRAFT\s*=\s*['\"]?\s?['\"]?"\<close>. It is built only after
  \<^verbatim>\<open>table_up\<close> was found in the watch-list, so the interpolated name is a plain word.
\<close>

definition draft_re :: "string \<Rightarrow> rx" where
  "draft_re table_up =
     Seq (lits (table_up @ ''-DRAFT''))
    (Seq (Star is_space)
    (Seq (Lit CHR ''='')
    (Seq (Star is_space)
    (Seq (Opt (Cls quote))
    (Seq (Opt (Cls is_space))
         (Opt (Cls quote)))))))"

definition WHERE_RE :: rx where
  "WHERE_RE = Seq WordB (Seq (lits ''WHERE'') WordB)"

definition INTO_RE :: rx where
  "INTO_RE = Seq WordB (Seq (lits ''INTO'') WordB)"

text \<open>\<^verbatim>\<open>s.rstrip(".")\<close> and \<^verbatim>\<open>s.strip()\<close>.\<close>

definition rstrip_dot :: "string \<Rightarrow> string" where
  "rstrip_dot s = rev (dropWhile (\<lambda>c. c = CHR ''.'') (rev s))"

definition strip :: "string \<Rightarrow> string" where
  "strip s = rev (dropWhile is_space (rev (dropWhile is_space s)))"

text \<open>\<^verbatim>\<open>re.sub(r"\s+", " ", s)\<close>: every maximal run of whitespace becomes one space.\<close>

function sub_ws :: "string \<Rightarrow> string" where
  "sub_ws [] = []"
| "sub_ws (c # cs) =
     (if is_space c then CHR '' '' # sub_ws (dropWhile is_space cs) else c # sub_ws cs)"
  by pat_completeness auto
termination
  by (relation "measure length") (auto simp: less_Suc_eq_le length_dropWhile_le)

definition watch_list :: "string set" where
  "watch_list = {''VBRK'', ''VBRP''}"

definition ensure_draft_filter :: "string \<Rightarrow> string \<Rightarrow> string" where
  "ensure_draft_filter sel_stmt table =
     (let table_up = str_upper table in
      if table_up \<notin> watch_list then sel_stmt
      else if search (draft_re table_up) 0 None sel_stmt \<noteq> None then sel_stmt
      else
        (case search WHERE_RE 0 None sel_stmt of
           Some (ws, we, st) \<Rightarrow>
             take we sel_stmt @ '' '' @ table_up @ ''-DRAFT = SPACE AND'' @ drop we sel_stmt
         | None \<Rightarrow>
             (case search INTO_RE 0 None sel_stmt of
                Some (ms, st) \<Rightarrow>
                  take ms sel_stmt @ '' WHERE '' @ table_up @ ''-DRAFT = SPACE '' @ drop ms sel_stmt
              | None \<Rightarrow> rstrip_dot sel_stmt @ '' WHERE '' @ table_up @ ''-DRAFT = SPACE.'')))"

definition build_replacement_stmt :: "string \<Rightarrow> string \<Rightarrow> string \<Rightarrow> string option \<Rightarrow> string" where
  "build_replacement_stmt sel_text table target_type target_name =
     (let stmt = ensure_draft_filter sel_text table in strip (sub_ws stmt))"

record select_occ =
  sel_text :: "string option"
  table :: "string option"
  target_type :: string
  target_name :: "string option"
  span :: "int \<times> int"

definition select_occ_of :: "string \<Rightarrow> nat \<times> nat \<times> caps \<Rightarrow> select_occ" where
  "select_occ_of txt m =
     (case m of (b, e, g) \<Rightarrow>
        \<lparr> sel_text = group txt g ''full'',
          table = group txt g ''table'',
          target_type = (if truthy (group txt g ''into_tab'') then ''itab'' else ''wa''),
          target_name = (if truthy (group txt g ''into_tab'') then group txt g ''into_tab''
                         else group txt g ''into_wa''),
          span = (int b, int e) \<rparr>)"

definition find_selects :: "string \<Rightarrow> select_occ list" where
  "find_selects txt = map (select_occ_of txt) (finditer SELECT_RE 0 None txt)"

text \<open>
  \<^verbatim>\<open>out[:k]\<close> and \<^verbatim>\<open>out[k:]\<close> for any integer \<open>k\<close>: a negative offset counts from the end,
  and both are clamped to the text.
\<close>

definition py_index :: "string \<Rightarrow> int \<Rightarrow> nat" where
  "py_index out k = (if k < 0 then nat (int (length out) + k) else nat k)"

definition apply_span_replacements :: "string \<Rightarrow> ((int \<times> int) \<times> string) list \<Rightarrow> string" where
  "apply_span_replacements source repls =
     foldl (\<lambda>out x. case x of ((s, e), r) \<Rightarrow> take (py_index out s) out @ r @ drop (py_index out e) out)
       source (rev (sort_key (\<lambda>x. fst (fst x)) (rev repls)))"

text \<open>
  One iteration of the inner loop of \<^verbatim>\<open>remediate_array\<close>: nothing for a table outside
  the watch-list, otherwise the metadata record and, when the suggestion differs from
  the matched text, the replacement. \<^verbatim>\<open>sel["table"].upper()\<close> raises on \<^verbatim>\<open>None\<close>, and so
  does \<^verbatim>\<open>re.search\<close> on a text that is \<^verbatim>\<open>None\<close>.
\<close>

definition sel_info :: "select_occ \<Rightarrow> string option \<Rightarrow> pyval" where
  "sel_info sel suggested =
     PDict [(''table'', opt_str (table sel)),
            (''target_type'', PStr (target_type sel)),
            (''target_name'', opt_str (target_name sel)),
            (''start_char_in_unit'', PInt (fst (select_occ.span sel))),
            (''end_char_in_unit'', PInt (snd (select_occ.span sel))),
            (''used_fields'', PList []),
            (''ambiguous'', PBool False),
            (''suggested_fields'', PNone),
            (''suggested_statement'', opt_str suggested)]"

definition select_entry ::
  "select_occ \<Rightarrow> py_error + (pyval \<times> ((int \<times> int) \<times> string) option) option" where
  "select_entry sel =
     (case table sel of
        None \<Rightarrow> Inl AttributeError
      | Some tab \<Rightarrow>
          if str_upper tab \<in> watch_list then
            (case sel_text sel of
               None \<Rightarrow> Inl TypeError
             | Some txt \<Rightarrow>
                 (let new_stmt = build_replacement_stmt txt tab (target_type sel) (target_name sel) in
                  if new_stmt \<noteq> txt
                  then Inr (Some (sel_info sel (Some new_stmt), Some (select_occ.span sel, new_stmt)))
                  else Inr (Some (sel_info sel None, None))))
          else Inr None)"

text \<open>The list comprehension of the entries that are not \<^verbatim>\<open>None\<close>.\<close>

fun somes :: "'a option list \<Rightarrow> 'a list" where
  "somes [] = []"
| "somes (None # xs) = somes xs"
| "somes (Some x # xs) = x # somes xs"

text \<open>
  The body of the loop over the units. The text that \<^verbatim>\<open>apply_span_replacements\<close>
  produces is bound to \<^verbatim>\<open>_\<close> and dropped; the unit's dictionary gets the key
  \<^verbatim>\<open>selects\<close>.
\<close>

definition remediate_unit :: "Unit \<Rightarrow> py_error + pydict" where
  "remediate_unit u =
     (let src = code_or_empty u in
      case traverse select_entry (find_selects src) of
        Inl err \<Rightarrow> Inl err
      | Inr entries \<Rightarrow>
          (let selects_metadata = map fst (somes entries);
               replacements = somes (map snd (somes entries));
               discarded = apply_span_replacements src replacements
           in Inr (dict_set ''selects'' (PList selects_metadata) (model_dump u))))"

definition remediate_array :: "Unit list \<Rightarrow> py_error + pydict list" where
  "remediate_array units = traverse remediate_unit units"

section \<open>Properties of the matcher\<close>

text \<open>
  A state of the matcher is determined by the text, the offset and the groups: the
  previous character and the text ahead are read off the text.
\<close>

definition prev_char :: "string \<Rightarrow> nat \<Rightarrow> char option" where
  "prev_char txt i = (if i = 0 then None else Some (txt ! (i - 1)))"

definition st_at :: "string \<Rightarrow> nat \<Rightarrow> caps \<Rightarrow> mstate" where
  "st_at txt i g = (i, prev_char txt i, drop i txt, g)"

lemma st_at_step:
  assumes "drop i txt = x # xs"
  shows "(Suc i, Some x, xs, g) = st_at txt (Suc i) g" and "i < length txt" and "txt ! i = x"
proof -
  from assms show lt: "i < length txt" by (cases "i < length txt") auto
  from assms lt show x: "txt ! i = x" by (metis nth_via_drop)
  from assms lt have "xs = drop (Suc i) txt" by (metis Cons_nth_drop_Suc list.inject)
  with x show "(Suc i, Some x, xs, g) = st_at txt (Suc i) g"
    by (simp add: st_at_def prev_char_def)
qed

lemma run_greedy_at:
  "m \<in> set (run_greedy p g i q cs) \<Longrightarrow> (i, q, cs, g) = st_at txt i g \<Longrightarrow> i \<le> length txt \<Longrightarrow>
     \<exists>j. m = st_at txt j g \<and> i \<le> j \<and> j \<le> length txt \<and> (\<forall>k. i \<le> k \<and> k < j \<longrightarrow> p (txt ! k))"
proof (induction p g i q cs arbitrary: m rule: run_greedy.induct)
  case (1 p g i q)
  then show ?case by (auto simp: st_at_def intro!: exI[of _ i])
next
  case (2 p g i q c cs)
  from "2.prems"(2) have d: "drop i txt = c # cs" by (simp add: st_at_def)
  note s = st_at_step[OF d]
  show ?case
  proof (cases "m = (i, q, c # cs, g)")
    case True
    with "2.prems"(2) s(2) show ?thesis by (auto intro!: exI[of _ i])
  next
    case False
    with "2.prems"(1) have pc: "p c" and mem: "m \<in> set (run_greedy p g (Suc i) (Some c) cs)"
      by (auto split: if_splits)
    from s(2) have "Suc i \<le> length txt" by simp
    from "2.IH"[OF pc mem s(1) this] obtain j where j: "m = st_at txt j g" "Suc i \<le> j" "j \<le> length txt"
      "\<forall>k. Suc i \<le> k \<and> k < j \<longrightarrow> p (txt ! k)" by blast
    have "\<forall>k. i \<le> k \<and> k < j \<longrightarrow> p (txt ! k)"
    proof (intro allI impI)
      fix k assume "i \<le> k \<and> k < j"
      then show "p (txt ! k)" using j(4) pc s(3) by (cases "k = i") auto
    qed
    with j show ?thesis by (auto intro!: exI[of _ j])
  qed
qed

lemma run_lazy_at:
  "m \<in> set (run_lazy p g i q cs) \<Longrightarrow> (i, q, cs, g) = st_at txt i g \<Longrightarrow> i \<le> length txt \<Longrightarrow>
     \<exists>j. m = st_at txt j g \<and> i \<le> j \<and> j \<le> length txt \<and> (\<forall>k. i \<le> k \<and> k < j \<longrightarrow> p (txt ! k))"
proof (induction p g i q cs arbitrary: m rule: run_lazy.induct)
  case (1 p g i q)
  then show ?case by (auto simp: st_at_def intro!: exI[of _ i])
next
  case (2 p g i q c cs)
  from "2.prems"(2) have d: "drop i txt = c # cs" by (simp add: st_at_def)
  note s = st_at_step[OF d]
  show ?case
  proof (cases "m = (i, q, c # cs, g)")
    case True
    with "2.prems"(2) s(2) show ?thesis by (auto intro!: exI[of _ i])
  next
    case False
    with "2.prems"(1) have pc: "p c" and mem: "m \<in> set (run_lazy p g (Suc i) (Some c) cs)"
      by (auto split: if_splits)
    from s(2) have "Suc i \<le> length txt" by simp
    from "2.IH"[OF pc mem s(1) this] obtain j where j: "m = st_at txt j g" "Suc i \<le> j" "j \<le> length txt"
      "\<forall>k. Suc i \<le> k \<and> k < j \<longrightarrow> p (txt ! k)" by blast
    have "\<forall>k. i \<le> k \<and> k < j \<longrightarrow> p (txt ! k)"
    proof (intro allI impI)
      fix k assume "i \<le> k \<and> k < j"
      then show "p (txt ! k)" using j(4) pc s(3) by (cases "k = i") auto
    qed
    with j show ?thesis by (auto intro!: exI[of _ j])
  qed
qed

lemma rmatch_at:
  "m \<in> set (rmatch r (st_at txt i g)) \<Longrightarrow> i \<le> length txt \<Longrightarrow>
     \<exists>j g'. m = st_at txt j g' \<and> i \<le> j \<and> j \<le> length txt"
proof (induction r arbitrary: i g m)
  case (Lit c)
  show ?case
  proof (cases "drop i txt")
    case Nil
    with Lit show ?thesis by (simp add: st_at_def)
  next
    case (Cons x xs)
    note s = st_at_step[OF Cons]
    from Lit Cons have "m = (Suc i, Some x, xs, g)" by (auto simp: st_at_def split: if_splits)
    with s(1)[of g] s(2) show ?thesis by (intro exI[of _ "Suc i"] exI[of _ g]) simp
  qed
next
  case (Uni n)
  then show ?case by simp
next
  case (Cls p)
  show ?case
  proof (cases "drop i txt")
    case Nil
    with Cls show ?thesis by (simp add: st_at_def)
  next
    case (Cons x xs)
    note s = st_at_step[OF Cons]
    from Cls Cons have "m = (Suc i, Some x, xs, g)" by (auto simp: st_at_def split: if_splits)
    with s(1)[of g] s(2) show ?thesis by (intro exI[of _ "Suc i"] exI[of _ g]) simp
  qed
next
  case (Seq a b)
  from Seq.prems(1) obtain m1 where 1: "m1 \<in> set (rmatch a (st_at txt i g))" and 2: "m \<in> set (rmatch b m1)"
    by auto
  from Seq.IH(1)[OF 1 Seq.prems(2)] obtain k gk where k: "m1 = st_at txt k gk" "i \<le> k" "k \<le> length txt" by blast
  from Seq.IH(2)[OF 2[unfolded k(1)] k(3)] k(2) show ?case by force
next
  case (Alt a b)
  from Alt.prems(1) have "m \<in> set (rmatch a (st_at txt i g)) \<or> m \<in> set (rmatch b (st_at txt i g))"
    by simp
  with Alt.IH Alt.prems(2) show ?case by blast
next
  case (Opt a)
  from Opt.prems(1) have "m \<in> set (rmatch a (st_at txt i g)) \<or> m = st_at txt i g"
    by auto
  with Opt.IH Opt.prems(2) show ?case by blast
next
  case (Star p)
  then have "m \<in> set (run_greedy p g i (prev_char txt i) (drop i txt))" by (simp add: st_at_def)
  from run_greedy_at[OF this, of "txt"] Star.prems(2) show ?case by (auto simp: st_at_def)
next
  case (StarLazy p)
  then have "m \<in> set (run_lazy p g i (prev_char txt i) (drop i txt))" by (simp add: st_at_def)
  from run_lazy_at[OF this, of "txt"] StarLazy.prems(2) show ?case by (auto simp: st_at_def)
next
  case (Grp n a)
  from Grp.prems(1) obtain j q' cs' g' where
    1: "(j, q', cs', g') \<in> set (rmatch a (st_at txt i g))" and m: "m = (j, q', cs', (n, i, j) # g')"
    by (auto simp: st_at_def)
  from Grp.IH[OF 1 Grp.prems(2)] obtain j' g'' where "(j, q', cs', g') = st_at txt j' g''" "i \<le> j'" "j' \<le> length txt"
    by blast
  with m show ?case by (auto simp: st_at_def)
next
  case WordB
  then show ?case by (auto simp: st_at_def split: if_splits)
qed


fun grp_names :: "rx \<Rightarrow> string set" where
  "grp_names (Grp n a) = insert n (grp_names a)"
| "grp_names (Seq a b) = grp_names a \<union> grp_names b"
| "grp_names (Alt a b) = grp_names a \<union> grp_names b"
| "grp_names (Opt a) = grp_names a"
| "grp_names r = {}"

fun sure_groups :: "rx \<Rightarrow> string set" where
  "sure_groups (Grp n a) = insert n (sure_groups a)"
| "sure_groups (Seq a b) = sure_groups a \<union> sure_groups b"
| "sure_groups (Alt a b) = sure_groups a \<inter> sure_groups b"
| "sure_groups r = {}"

lemma run_greedy_caps: "(j, q', cs', g') \<in> set (run_greedy p g i q cs) \<Longrightarrow> g' = g"
  by (induction p g i q cs rule: run_greedy.induct) (auto split: if_splits)

lemma run_lazy_caps: "(j, q', cs', g') \<in> set (run_lazy p g i q cs) \<Longrightarrow> g' = g"
  by (induction p g i q cs rule: run_lazy.induct) (auto split: if_splits)

lemma rmatch_caps:
  "(j, q', cs', g') \<in> set (rmatch r (i, q, cs, g)) \<Longrightarrow>
     \<exists>new. g' = new @ g \<and> fst ` set new \<subseteq> grp_names r \<and> sure_groups r \<subseteq> fst ` set new"
proof (induction r arbitrary: i q cs g j q' cs' g')
  case (Lit c)
  then show ?case by (cases cs) (auto split: if_splits)
next
  case (Cls p)
  then show ?case by (cases cs) (auto split: if_splits)
next
  case (Seq a b)
  from Seq.prems obtain k qk ck gk where
    1: "(k, qk, ck, gk) \<in> set (rmatch a (i, q, cs, g))" and
    2: "(j, q', cs', g') \<in> set (rmatch b (k, qk, ck, gk))"
    by auto
  from Seq.IH(1)[OF 1] obtain n1 where n1: "gk = n1 @ g" "fst ` set n1 \<subseteq> grp_names a"
     "sure_groups a \<subseteq> fst ` set n1" by blast
  from Seq.IH(2)[OF 2] obtain n2 where n2: "g' = n2 @ gk" "fst ` set n2 \<subseteq> grp_names b"
     "sure_groups b \<subseteq> fst ` set n2" by blast
  from n1 n2 show ?case by (intro exI[of _ "n2 @ n1"]) auto
next
  case (Alt a b)
  from Alt.prems have "(j, q', cs', g') \<in> set (rmatch a (i, q, cs, g)) \<or> (j, q', cs', g') \<in> set (rmatch b (i, q, cs, g))"
    by simp
  then show ?case
  proof
    assume "(j, q', cs', g') \<in> set (rmatch a (i, q, cs, g))"
    from Alt.IH(1)[OF this] obtain new where n: "g' = new @ g" "fst ` set new \<subseteq> grp_names a"
      "sure_groups a \<subseteq> fst ` set new" by blast
    have "fst ` set new \<subseteq> grp_names (Alt a b)" using n(2) by auto
    moreover have "sure_groups (Alt a b) \<subseteq> fst ` set new" using n(3) by auto
    ultimately show ?thesis using n(1) by blast
  next
    assume "(j, q', cs', g') \<in> set (rmatch b (i, q, cs, g))"
    from Alt.IH(2)[OF this] obtain new where n: "g' = new @ g" "fst ` set new \<subseteq> grp_names b"
      "sure_groups b \<subseteq> fst ` set new" by blast
    have "fst ` set new \<subseteq> grp_names (Alt a b)" using n(2) by auto
    moreover have "sure_groups (Alt a b) \<subseteq> fst ` set new" using n(3) by auto
    ultimately show ?thesis using n(1) by blast
  qed
next
  case (Opt a)
  from Opt.prems have "(j, q', cs', g') \<in> set (rmatch a (i, q, cs, g)) \<or> g' = g" by auto
  then show ?case
  proof
    assume "(j, q', cs', g') \<in> set (rmatch a (i, q, cs, g))"
    from Opt.IH[OF this] obtain new where n: "g' = new @ g" "fst ` set new \<subseteq> grp_names a" by blast
    then show ?thesis by (intro exI[of _ new]) simp
  next
    assume "g' = g"
    then show ?thesis by simp
  qed
next
  case (Star p)
  then show ?case using run_greedy_caps by simp
next
  case (StarLazy p)
  then show ?case using run_lazy_caps by simp
next
  case (Grp n a)
  from Grp.prems obtain g0 where 1: "(j, q', cs', g0) \<in> set (rmatch a (i, q, cs, g))" and g': "g' = (n, i, j) # g0"
    by auto
  from Grp.IH[OF 1] obtain n1 where "g0 = n1 @ g" "fst ` set n1 \<subseteq> grp_names a" "sure_groups a \<subseteq> fst ` set n1"
    by blast
  with g' show ?case by (intro exI[of _ "(n, i, j) # n1"]) auto
qed (auto split: if_splits)

text \<open>The first match at an offset of the text.\<close>

definition match_at :: "rx \<Rightarrow> string \<Rightarrow> nat \<Rightarrow> (nat \<times> caps) option" where
  "match_at r txt b = (case rmatch r (st_at txt b []) of [] \<Rightarrow> None | (e, q, cs, g) # _ \<Rightarrow> Some (e, g))"

lemma match_at_bounds:
  assumes "match_at r txt b = Some (e, g)" "b \<le> length txt"
  shows "b \<le> e \<and> e \<le> length txt \<and> (\<exists>ms. rmatch r (st_at txt b []) = st_at txt e g # ms)"
proof -
  from assms(1) obtain q cs ms where r: "rmatch r (st_at txt b []) = (e, q, cs, g) # ms"
    by (auto simp: match_at_def split: list.splits)
  then have "(e, q, cs, g) \<in> set (rmatch r (st_at txt b []))" by simp
  from rmatch_at[OF this assms(2)] r show ?thesis by (auto simp: st_at_def)
qed

lemma search_at:
  "search r i q cs = Some (b, e, q', cs', g) \<Longrightarrow> (i, q, cs, []) = st_at txt i [] \<Longrightarrow> i \<le> length txt \<Longrightarrow>
     i \<le> b \<and> b \<le> length txt \<and> match_at r txt b = Some (e, g) \<and> (e, q', cs', []) = st_at txt e []
     \<and> (\<forall>k. i \<le> k \<and> k < b \<longrightarrow> match_at r txt k = None)"
proof (induction r i q cs rule: search.induct)
  case (1 r i q)
  from "1.prems"(1) obtain ms where r: "rmatch r (i, q, [], []) = (e, q', cs', g) # ms" and b: "b = i"
    by (auto split: list.splits)
  with "1.prems"(2) have m: "match_at r txt b = Some (e, g)" by (simp add: match_at_def)
  from r "1.prems"(2) have "(e, q', cs', g) \<in> set (rmatch r (st_at txt i []))" by simp
  from rmatch_at[OF this "1.prems"(3)] have "(e, q', cs', []) = st_at txt e []" by (auto simp: st_at_def)
  with m b "1.prems"(3) show ?case by auto
next
  case (2 r i q c cs)
  from "2.prems"(2) have d: "drop i txt = c # cs" by (simp add: st_at_def)
  note s = st_at_step[OF d]
  show ?case
  proof (cases "rmatch r (i, q, c # cs, [])")
    case Nil
    with "2.prems"(1) have sr: "search r (Suc i) (Some c) cs = Some (b, e, q', cs', g)" by simp
    from s(2) have "Suc i \<le> length txt" by simp
    from "2.IH"[OF Nil sr s(1) this] have
      ih: "Suc i \<le> b" "b \<le> length txt" "match_at r txt b = Some (e, g)" "(e, q', cs', []) = st_at txt e []"
        "\<forall>k. Suc i \<le> k \<and> k < b \<longrightarrow> match_at r txt k = None" by auto
    from Nil "2.prems"(2) have "match_at r txt i = None" by (simp add: match_at_def)
    with ih(5) have "\<forall>k. i \<le> k \<and> k < b \<longrightarrow> match_at r txt k = None"
      by (metis le_antisym not_less_eq_eq)
    with ih show ?thesis by simp
  next
    case (Cons m ms)
    with "2.prems"(1) have r: "rmatch r (i, q, c # cs, []) = (e, q', cs', g) # ms" and b: "b = i"
      by auto
    with "2.prems"(2) have m: "match_at r txt b = Some (e, g)" by (simp add: match_at_def)
    from r "2.prems"(2) have "(e, q', cs', g) \<in> set (rmatch r (st_at txt i []))" by simp
    from rmatch_at[OF this "2.prems"(3)] have "(e, q', cs', []) = st_at txt e []" by (auto simp: st_at_def)
    with m b "2.prems"(3) show ?thesis by auto
  qed
qed

lemma search_none_at:
  "search r i q cs = None \<Longrightarrow> (i, q, cs, []) = st_at txt i [] \<Longrightarrow> i \<le> length txt \<Longrightarrow>
     i \<le> k \<Longrightarrow> k \<le> length txt \<Longrightarrow> match_at r txt k = None"
proof (induction r i q cs rule: search.induct)
  case (1 r i q)
  from "1.prems"(2) have "length txt \<le> i" by (simp add: st_at_def)
  with "1.prems" have "k = i" by simp
  with "1.prems"(1,2) show ?case by (auto simp: match_at_def split: list.splits)
next
  case (2 r i q c cs)
  from "2.prems"(2) have d: "drop i txt = c # cs" by (simp add: st_at_def)
  note s = st_at_step[OF d]
  from "2.prems"(1) have Nil: "rmatch r (i, q, c # cs, []) = []" and sr: "search r (Suc i) (Some c) cs = None"
    by (auto split: list.splits)
  show ?case
  proof (cases "k = i")
    case True
    with Nil "2.prems"(2) show ?thesis by (simp add: match_at_def)
  next
    case False
    with "2.prems"(4) have "Suc i \<le> k" by simp
    from s(2) have "Suc i \<le> length txt" by simp
    from "2.IH"[OF Nil sr s(1) this \<open>Suc i \<le> k\<close> "2.prems"(5)] show ?thesis .
  qed
qed


fun ordered_from :: "nat \<Rightarrow> (nat \<times> nat \<times> caps) list \<Rightarrow> bool" where
  "ordered_from i [] = True"
| "ordered_from i ((b, e, g) # ms) = (i \<le> b \<and> b \<le> e \<and> ordered_from e ms)"

lemma ordered_from_mono: "ordered_from i ms \<Longrightarrow> j \<le> i \<Longrightarrow> ordered_from j ms"
  by (cases ms) auto

lemma ordered_from_sorted:
  "ordered_from i ms \<Longrightarrow> sorted (map fst ms) \<and> (\<forall>m\<in>set ms. i \<le> fst m)"
proof (induction ms arbitrary: i)
  case Nil
  then show ?case by simp
next
  case (Cons m ms)
  obtain b e g where m: "m = (b, e, g)" by (cases m)
  with Cons.prems have 1: "i \<le> b" "b \<le> e" "ordered_from e ms" by auto
  from Cons.IH[OF 1(3)] have "sorted (map fst ms)" "\<forall>x\<in>set ms. e \<le> fst x" by auto
  with 1 m show ?case by fastforce
qed

lemma finditer_at:
  "(i, q, cs, []) = st_at txt i [] \<Longrightarrow> i \<le> length txt \<Longrightarrow>
     ordered_from i (finditer r i q cs) \<and>
     (\<forall>(b, e, g)\<in>set (finditer r i q cs). b \<le> e \<and> e \<le> length txt \<and> match_at r txt b = Some (e, g))"
proof (induction r i q cs rule: finditer.induct)
  case (1 r i q cs)
  show ?case
  proof (cases "search r i q cs")
    case None
    then show ?thesis by (simp add: finditer.simps)
  next
    case (Some x)
    obtain b e q' cs' g where x: "x = (b, e, q', cs', g)" by (cases x)
    from search_at[OF Some[unfolded x] "1.prems"] have
      sa: "i \<le> b" "b \<le> length txt" "match_at r txt b = Some (e, g)" "(e, q', cs', []) = st_at txt e []"
      by auto
    from match_at_bounds[OF sa(3) sa(2)] have be: "b \<le> e" "e \<le> length txt" by auto
    show ?thesis
    proof (cases "b < e")
      case True
      from "1.IH"(1)[OF Some x[symmetric] refl refl refl True sa(4) be(2)]
      have ih: "ordered_from e (finditer r e q' cs')"
        "\<forall>(b, e, g)\<in>set (finditer r e q' cs'). b \<le> e \<and> e \<le> length txt \<and> match_at r txt b = Some (e, g)"
        by auto
      have f: "finditer r i q cs = (b, e, g) # finditer r e q' cs'"
        using Some x True by (subst finditer.simps) simp
      from ih sa be show ?thesis unfolding f by simp
    next
      case False
      show ?thesis
      proof (cases cs')
        case Nil
        have f: "finditer r i q cs = [(b, e, g)]"
          using Some x False Nil by (subst finditer.simps) simp
        from sa be show ?thesis unfolding f by simp
      next
        case (Cons c cs'')
        from sa(4) Cons have d: "drop e txt = c # cs''" by (simp add: st_at_def)
        note s = st_at_step[OF d]
        from s(2) have le: "Suc e \<le> length txt" by simp
        from "1.IH"(2)[OF Some x[symmetric] refl refl refl False Cons s(1) le]
        have ih: "ordered_from (Suc e) (finditer r (Suc e) (Some c) cs'')"
          "\<forall>(b, e, g)\<in>set (finditer r (Suc e) (Some c) cs''). b \<le> e \<and> e \<le> length txt \<and> match_at r txt b = Some (e, g)"
          by auto
        have f: "finditer r i q cs = (b, e, g) # finditer r (Suc e) (Some c) cs''"
          using Some x False Cons by (subst finditer.simps) simp
        from ordered_from_mono[OF ih(1), of e] have "ordered_from e (finditer r (Suc e) (Some c) cs'')" by simp
        with ih sa be show ?thesis unfolding f by simp
      qed
    qed
  qed
qed

lemma st_at_0: "(0, None, txt, []) = st_at txt 0 []"
  by (simp add: st_at_def prev_char_def)

lemma finditer_matches:
  assumes "(b, e, g) \<in> set (finditer r 0 None txt)"
  shows "b \<le> e" "e \<le> length txt" "match_at r txt b = Some (e, g)"
  using finditer_at[OF st_at_0, of "txt" r] assms by auto

lemma finditer_sorted: "sorted (map fst (finditer r 0 None txt))"
  using finditer_at[OF st_at_0, of "txt" r] ordered_from_sorted by blast

section \<open>Literals, runs and the head of the result list\<close>

text \<open>
  What a literal, a word and a greedy run match at an offset of the text, and which
  result the engine tries first.
\<close>

lemma lower_eq_period: "lower x = CHR ''.'' \<longleftrightarrow> x = CHR ''.''"
  by (cases x) (simp add: lower_code alpha5_def)

lemma lower_eq_space: "lower x = CHR '' '' \<longleftrightarrow> x = CHR '' ''"
  by (cases x) (simp add: lower_code alpha5_def)


lemma lower_period: "lower CHR ''.'' = CHR ''.''"
  by (simp add: lower_eq_period)

lemma rmatch_Lit_at:
  "rmatch (Lit c) (st_at txt i g) =
     (if i < length txt \<and> lower (txt ! i) = lower c then [st_at txt (Suc i) g] else [])"
proof (cases "drop i txt")
  case Nil
  then show ?thesis by (simp add: st_at_def)
next
  case (Cons x xs)
  from st_at_step(1)[OF Cons, where g = g] st_at_step(2,3)[OF Cons] Cons show ?thesis by (simp add: st_at_def)
qed

lemma rmatch_Cls_at:
  "rmatch (Cls p) (st_at txt i g) =
     (if i < length txt \<and> p (txt ! i) then [st_at txt (Suc i) g] else [])"
proof (cases "drop i txt")
  case Nil
  then show ?thesis by (simp add: st_at_def)
next
  case (Cons x xs)
  from st_at_step(1)[OF Cons, where g = g] st_at_step(2,3)[OF Cons] Cons show ?thesis by (simp add: st_at_def)
qed

text \<open>A word matches exactly where the text has it, up to case.\<close>

definition ci_at :: "string \<Rightarrow> nat \<Rightarrow> string \<Rightarrow> bool" where
  "ci_at txt i w = (i + length w \<le> length txt \<and> map lower (slice txt i (i + length w)) = map lower w)"

lemma ci_at_Nil: "ci_at txt i [] = (i \<le> length txt)"
  by (simp add: ci_at_def slice_def)

lemma ci_at_Cons:
  "ci_at txt i (c # w) = (i < length txt \<and> lower (txt ! i) = lower c \<and> ci_at txt (Suc i) w)"
proof (cases "i < length txt")
  case True
  then have "drop i txt = txt ! i # drop (Suc i) txt" by (simp add: Cons_nth_drop_Suc)
  then show ?thesis using True by (auto simp: ci_at_def slice_def)
next
  case False
  then show ?thesis by (simp add: ci_at_def)
qed

lemma rmatch_lits_at:
  "i \<le> length txt \<Longrightarrow>
     rmatch (lits w) (st_at txt i g) = (if ci_at txt i w then [st_at txt (i + length w) g] else [])"
proof (induction w arbitrary: i rule: lits.induct)
  case 1
  then show ?case by (simp add: ci_at_Nil)
next
  case (2 c)
  then show ?case by (simp add: rmatch_Lit_at ci_at_Cons ci_at_Nil)
next
  case (3 c d w)
  show ?case
  proof (cases "i < length txt \<and> lower (txt ! i) = lower c")
    case True
    then have "Suc i \<le> length txt" by simp
    from "3.IH"[OF this] True show ?thesis
      by (simp add: rmatch_Lit_at ci_at_Cons[of "txt" i c])
  next
    case False
    then show ?thesis by (auto simp add: rmatch_Lit_at ci_at_Cons[of "txt" i c])
  qed
qed


lemma run_greedy_hd:
  "(i, q, cs, g) = st_at txt i g \<Longrightarrow> i \<le> length txt \<Longrightarrow>
     \<exists>j ms. run_greedy p g i q cs = st_at txt j g # ms \<and> i \<le> j \<and> j \<le> length txt \<and>
            (j = length txt \<or> \<not> p (txt ! j))"
proof (induction p g i q cs rule: run_greedy.induct)
  case (1 p g i q)
  then have "i = length txt" by (simp add: st_at_def)
  with 1 show ?case by auto
next
  case (2 p g i q c cs)
  from "2.prems"(1) have d: "drop i txt = c # cs" by (simp add: st_at_def)
  note s = st_at_step[OF d]
  show ?case
  proof (cases "p c")
    case True
    from s(2) have "Suc i \<le> length txt" by simp
    from "2.IH"[OF True s(1) this] obtain j ms where
      "run_greedy p g (Suc i) (Some c) cs = st_at txt j g # ms" "Suc i \<le> j" "j \<le> length txt"
      "j = length txt \<or> \<not> p (txt ! j)" by blast
    with True show ?thesis by (intro exI[of _ j]) auto
  next
    case False
    with "2.prems" s(2,3) show ?thesis by (intro exI[of _ i]) auto
  qed
qed

lemma run_greedy_mem:
  "(i, q, cs, g) = st_at txt i g \<Longrightarrow> i \<le> j \<Longrightarrow> j \<le> length txt \<Longrightarrow>
     (\<forall>k. i \<le> k \<and> k < j \<longrightarrow> p (txt ! k)) \<Longrightarrow> st_at txt j g \<in> set (run_greedy p g i q cs)"
proof (induction p g i q cs rule: run_greedy.induct)
  case (1 p g i q)
  then have "i = j" by (simp add: st_at_def)
  with 1 show ?case by simp
next
  case (2 p g i q c cs)
  from "2.prems"(1) have d: "drop i txt = c # cs" by (simp add: st_at_def)
  note s = st_at_step[OF d]
  show ?case
  proof (cases "i = j")
    case True
    with "2.prems"(1) show ?thesis by auto
  next
    case False
    with "2.prems"(2) have lt: "i < j" "Suc i \<le> j" by auto
    with "2.prems"(4) s(3) have pc: "p c" by auto
    from "2.prems"(4) have "\<forall>k. Suc i \<le> k \<and> k < j \<longrightarrow> p (txt ! k)" by auto
    from "2.IH"[OF pc s(1) lt(2) "2.prems"(3) this] pc show ?thesis by simp
  qed
qed

lemma rmatch_Star_at: "rmatch (Star p) (st_at txt i g) = run_greedy p g i (prev_char txt i) (drop i txt)"
  by (simp add: st_at_def)

lemma rmatch_Grp_at:
  "rmatch (Grp n a) (st_at txt i g) =
     map (\<lambda>(j, q', cs', g'). (j, q', cs', (n, i, j) # g')) (rmatch a (st_at txt i g))"
  by (simp add: st_at_def)

lemma rmatch_Grp_mem:
  assumes "m \<in> set (rmatch (Grp n a) (st_at txt i g))" "i \<le> length txt"
  shows "\<exists>j g'. m = st_at txt j ((n, i, j) # g') \<and> st_at txt j g' \<in> set (rmatch a (st_at txt i g))"
proof -
  from assms(1) obtain j q' cs' g' where
    1: "(j, q', cs', g') \<in> set (rmatch a (st_at txt i g))" and m: "m = (j, q', cs', (n, i, j) # g')"
    by (auto simp: rmatch_Grp_at)
  from rmatch_at[OF 1 assms(2)] obtain j' g'' where "(j, q', cs', g') = st_at txt j' g''" by blast
  then have e: "(j, q', cs', g') = st_at txt j g'" by (simp add: st_at_def)
  with m have "m = st_at txt j ((n, i, j) # g')" by (simp add: st_at_def)
  with 1 e show ?thesis by auto
qed

lemma rmatch_Seq_mem:
  assumes "m \<in> set (rmatch (Seq a b) (st_at txt i g))" "i \<le> length txt"
  shows "\<exists>k gk. st_at txt k gk \<in> set (rmatch a (st_at txt i g)) \<and> i \<le> k \<and> k \<le> length txt \<and>
           m \<in> set (rmatch b (st_at txt k gk))"
proof -
  from assms(1) obtain m1 where 1: "m1 \<in> set (rmatch a (st_at txt i g))" and 2: "m \<in> set (rmatch b m1)"
    by auto
  from rmatch_at[OF 1 assms(2)] obtain k gk where "m1 = st_at txt k gk" "i \<le> k" "k \<le> length txt" by blast
  with 1 2 show ?thesis by blast
qed

lemma rmatch_caps_at:
  assumes "st_at txt j g' \<in> set (rmatch r (st_at txt i g))"
  shows "\<exists>new. g' = new @ g \<and> fst ` set new \<subseteq> grp_names r \<and> sure_groups r \<subseteq> fst ` set new"
  using assms rmatch_caps unfolding st_at_def by blast

text \<open>The end of a match is closed under the optional period: the match ends with a
  period, or no period follows it.\<close>

definition period_closed :: "string \<Rightarrow> nat \<Rightarrow> bool" where
  "period_closed txt e =
     ((0 < e \<and> txt ! (e - 1) = CHR ''.'') \<or> length txt \<le> e \<or> txt ! e \<noteq> CHR ''.'')"

definition head_ok :: "string \<Rightarrow> rx \<Rightarrow> bool" where
  "head_ok txt r =
     (\<forall>i g m ms. i \<le> length txt \<longrightarrow> rmatch r (st_at txt i g) = m # ms \<longrightarrow> period_closed txt (fst m))"

lemma concat_eq_Cons:
  "concat xss = m # ms \<Longrightarrow> \<exists>ys\<in>set xss. \<exists>ms'. ys = m # ms'"
proof (induction xss)
  case Nil
  then show ?case by simp
next
  case (Cons xs xss)
  then show ?case by (cases xs) auto
qed

lemma head_ok_Seq:
  assumes "head_ok txt b"
  shows "head_ok txt (Seq a b)"
  unfolding head_ok_def
proof (intro allI impI)
  fix i g m ms
  assume i: "i \<le> length txt" and r: "rmatch (Seq a b) (st_at txt i g) = m # ms"
  from r have "concat (map (rmatch b) (rmatch a (st_at txt i g))) = m # ms" by simp
  from concat_eq_Cons[OF this] obtain m1 ms' where
    1: "m1 \<in> set (rmatch a (st_at txt i g))" and 2: "rmatch b m1 = m # ms'" by auto
  from rmatch_at[OF 1 i] obtain k gk where "m1 = st_at txt k gk" "k \<le> length txt" by blast
  with 2 assms show "period_closed txt (fst m)" unfolding head_ok_def by blast
qed

lemma head_ok_Grp:
  assumes "head_ok txt a"
  shows "head_ok txt (Grp n a)"
  unfolding head_ok_def
proof (intro allI impI)
  fix i g m ms
  assume i: "i \<le> length txt" and r: "rmatch (Grp n a) (st_at txt i g) = m # ms"
  then obtain x xs where x: "rmatch a (st_at txt i g) = x # xs" and m: "fst m = fst x"
    by (cases "rmatch a (st_at txt i g)") (auto simp: rmatch_Grp_at split: prod.splits)
  from assms i x have "period_closed txt (fst x)" unfolding head_ok_def by blast
  with m show "period_closed txt (fst m)" by simp
qed

lemma head_ok_tail: "head_ok txt (Seq (Star is_space) (Opt (Lit CHR ''.'')))"
  unfolding head_ok_def
proof (intro allI impI)
  fix i g m ms
  assume i: "i \<le> length txt"
    and r: "rmatch (Seq (Star is_space) (Opt (Lit CHR ''.''))) (st_at txt i g) = m # ms"
  have s: "(i, prev_char txt i, drop i txt, g) = st_at txt i g" by (simp add: st_at_def)
  from run_greedy_hd[OF s i, of is_space] obtain j xs where
    h: "run_greedy is_space g i (prev_char txt i) (drop i txt) = st_at txt j g # xs"
    and j: "j \<le> length txt" "j = length txt \<or> \<not> is_space (txt ! j)" by blast
  show "period_closed txt (fst m)"
  proof (cases "j < length txt \<and> txt ! j = CHR ''.''")
    case True
    with r h have "m = st_at txt (Suc j) g"
      by (simp add: rmatch_Star_at rmatch_Lit_at lower_eq_period lower_period)
    with True show ?thesis by (simp add: period_closed_def st_at_def)
  next
    case False
    with r h have "m = st_at txt j g"
      by (auto simp add: rmatch_Star_at rmatch_Lit_at lower_eq_period lower_period)
    with False j show ?thesis by (auto simp add: period_closed_def st_at_def)
  qed
qed

lemma head_ok_MB_TXN_RE: "head_ok txt MB_TXN_RE"
  unfolding MB_TXN_RE_def by (intro head_ok_Grp head_ok_Seq head_ok_tail)

lemma grp_names_lits [simp]: "grp_names (lits w) = {}"
  by (induction w rule: lits.induct) auto

lemma sure_groups_lits [simp]: "sure_groups (lits w) = {}"
  by (induction w rule: lits.induct) auto

declare lits.simps [simp del]

lemma st_at_inject [simp]: "st_at txt a g = st_at txt b h \<longleftrightarrow> a = b \<and> g = h"
  by (auto simp: st_at_def)

lemma mb_match_shape:
  assumes "match_at MB_TXN_RE txt b = Some (e, g)" "b \<le> length txt"
  shows "\<exists>k g'. g = (''full'', b, e) # g' \<and> map_of g' ''stmt'' = Some (b, k) \<and> b < k \<and> k \<le> e \<and>
           e \<le> length txt \<and> map_of g' ''txn'' \<noteq> None \<and>
           (ci_at txt b ''SUBMIT'' \<and> k = b + 6 \<or> ci_at txt b ''CALL'' \<and> b + 4 \<le> k) \<and>
           period_closed txt e"
proof -
  define A where "A = Alt (Seq (lits ''CALL'') (Seq (Plus is_space) (lits ''TRANSACTION''))) (lits ''SUBMIT'')"
  define R where "R = Seq (Plus is_space) (Seq (Opt (Cls quote)) (Seq (Grp ''txn'' (alts OBSOLETE_MB_TXNS))
      (Seq (Opt (Cls quote)) (Seq (Star is_space) (Opt (Lit CHR ''.''))))))"
  have re: "MB_TXN_RE = Grp ''full'' (Seq (Grp ''stmt'' A) R)"
    by (simp add: MB_TXN_RE_def A_def R_def)
  from match_at_bounds[OF assms] obtain ms where
    r: "rmatch MB_TXN_RE (st_at txt b []) = st_at txt e g # ms" and e: "e \<le> length txt" by blast
  from head_ok_MB_TXN_RE[of "txt"] r assms(2) have pc: "period_closed txt e"
    unfolding head_ok_def st_at_def by fastforce
  from r have "st_at txt e g \<in> set (rmatch (Grp ''full'' (Seq (Grp ''stmt'' A) R)) (st_at txt b []))"
    by (simp add: re)
  from rmatch_Grp_mem[OF this assms(2)] obtain g0 where
    g: "g = (''full'', b, e) # g0" and
    1: "st_at txt e g0 \<in> set (rmatch (Seq (Grp ''stmt'' A) R) (st_at txt b []))"
    by auto
  from rmatch_Seq_mem[OF 1 assms(2)] obtain k gk where
    2: "st_at txt k gk \<in> set (rmatch (Grp ''stmt'' A) (st_at txt b []))" and k: "k \<le> length txt"
    and 3: "st_at txt e g0 \<in> set (rmatch R (st_at txt k gk))" by blast
  from rmatch_Grp_mem[OF 2 assms(2)] obtain g1 where
    gk: "gk = (''stmt'', b, k) # g1" and 4: "st_at txt k g1 \<in> set (rmatch A (st_at txt b []))"
    by auto
  from rmatch_caps_at[OF 4] have g1: "g1 = []" by (auto simp: A_def Plus_def)
  from rmatch_caps_at[OF 3] obtain new where
    new: "g0 = new @ gk" "fst ` set new \<subseteq> grp_names R" "sure_groups R \<subseteq> fst ` set new" by blast
  have gn: "grp_names R = {''txn''}" "sure_groups R = {''txn''}"
    by (simp_all add: R_def Plus_def OBSOLETE_MB_TXNS_def)
  from new(2) gn have "''stmt'' \<notin> fst ` set new" by auto
  then have "map_of new ''stmt'' = None" by (simp add: map_of_eq_None_iff)
  with new(1) gk have stmt: "map_of g0 ''stmt'' = Some (b, k)" by (simp add: map_add_def)
  from new(3) gn have "''txn'' \<in> fst ` set new" by auto
  then have "map_of new ''txn'' \<noteq> None" by (simp add: map_of_eq_None_iff)
  with new(1) have txn: "map_of g0 ''txn'' \<noteq> None" by (auto simp add: map_add_def split: option.splits)
  from rmatch_at[OF 3 k] have ke: "k \<le> e" by auto
  from 4 have "st_at txt k g1 \<in> set (rmatch (Seq (lits ''CALL'') (Seq (Plus is_space) (lits ''TRANSACTION''))) (st_at txt b []))
      \<or> st_at txt k g1 \<in> set (rmatch (lits ''SUBMIT'') (st_at txt b []))"
    by (simp add: A_def)
  then have alt: "ci_at txt b ''SUBMIT'' \<and> k = b + 6 \<or> ci_at txt b ''CALL'' \<and> b + 4 \<le> k"
  proof
    assume c: "st_at txt k g1 \<in> set (rmatch (Seq (lits ''CALL'') (Seq (Plus is_space) (lits ''TRANSACTION''))) (st_at txt b []))"
    from rmatch_Seq_mem[OF c assms(2)] obtain k' gk' where
      5: "st_at txt k' gk' \<in> set (rmatch (lits ''CALL'') (st_at txt b []))" and k': "k' \<le> length txt"
      and 6: "st_at txt k g1 \<in> set (rmatch (Seq (Plus is_space) (lits ''TRANSACTION'')) (st_at txt k' gk'))"
      by blast
    from 5 assms(2) have "ci_at txt b ''CALL''" "k' = b + 4"
      by (auto simp: rmatch_lits_at split: if_splits)
    moreover from rmatch_at[OF 6 k'] have "k' \<le> k" by auto
    ultimately show ?thesis by simp
  next
    assume "st_at txt k g1 \<in> set (rmatch (lits ''SUBMIT'') (st_at txt b []))"
    with assms(2) show ?thesis by (auto simp: rmatch_lits_at split: if_splits)
  qed
  then have "b < k" by auto
  with g stmt txn ke e alt pc show ?thesis by blast
qed

section \<open>The matches of the two patterns\<close>

text \<open>
  The shape of every match of \<^verbatim>\<open>SELECT_RE\<close> and \<^verbatim>\<open>MB_TXN_RE\<close>: which groups are set, where
  they lie, and that the loops over the matches raise no exception.
\<close>

lemma select_match_shape:
  assumes "match_at SELECT_RE txt b = Some (e, g)" "b \<le> length txt"
  shows "\<exists>k g'. e = Suc k \<and> g = (''full'', b, k) # g' \<and> b + 6 \<le> k \<and> k < length txt \<and>
           txt ! k = CHR ''.'' \<and> ci_at txt b ''SELECT'' \<and> map_of g' ''table'' \<noteq> None"
proof -
  define Y where "Y = (Seq (Plus is_space)
       (Seq (Opt (Seq (lits ''SINGLE'') (Plus is_space)))
       (Seq (Grp ''fields'' (Plus fields_cls))
       (Seq (Plus is_space)
       (Seq (lits ''FROM'')
       (Seq (Plus is_space)
       (Seq (Grp ''table'' (Plus is_word))
       (Seq (Grp ''middle'' (StarLazy any_char))
       (Seq (Alt (Seq (lits ''INTO'') (Seq (Plus is_space) (Seq (lits ''TABLE'')
                    (Seq (Plus is_space) (Grp ''into_tab'' (Plus dest_cls))))))
                 (Seq (lits ''INTO'') (Seq (Plus is_space) (Grp ''into_wa'' (Plus dest_cls)))))
            (Grp ''tail'' (StarLazy any_char)))))))))))"
  have re: "SELECT_RE = Seq (Grp ''full'' (Seq (lits ''SELECT'') Y)) (Lit CHR ''.'')"
    by (simp add: SELECT_RE_def Y_def)
  have sure: "''table'' \<in> sure_groups (Seq (lits ''SELECT'') Y)"
    by (simp add: Y_def Plus_def)
  from match_at_bounds[OF assms] obtain ms where
    r: "rmatch SELECT_RE (st_at txt b []) = st_at txt e g # ms" and e: "e \<le> length txt" by blast
  then have "st_at txt e g \<in> set (rmatch (Seq (Grp ''full'' (Seq (lits ''SELECT'') Y)) (Lit CHR ''.'')) (st_at txt b []))"
    by (simp add: re)
  from rmatch_Seq_mem[OF this assms(2)] obtain k gk where
    1: "st_at txt k gk \<in> set (rmatch (Grp ''full'' (Seq (lits ''SELECT'') Y)) (st_at txt b []))"
    and k: "k \<le> length txt" and 2: "st_at txt e g \<in> set (rmatch (Lit CHR ''.'') (st_at txt k gk))"
    by blast
  from 2 have ek: "e = Suc k" "g = gk" "k < length txt" "txt ! k = CHR ''.''"
    by (auto simp: rmatch_Lit_at lower_eq_period lower_period split: if_splits)
  from rmatch_Grp_mem[OF 1 assms(2)] obtain g0 where
    gk: "gk = (''full'', b, k) # g0" and 3: "st_at txt k g0 \<in> set (rmatch (Seq (lits ''SELECT'') Y) (st_at txt b []))"
    by auto
  from rmatch_caps_at[OF 3] sure have "''table'' \<in> fst ` set g0" by auto
  then have tab: "map_of g0 ''table'' \<noteq> None" by (simp add: map_of_eq_None_iff)
  from rmatch_Seq_mem[OF 3 assms(2)] obtain k' gk' where
    4: "st_at txt k' gk' \<in> set (rmatch (lits ''SELECT'') (st_at txt b []))" and k': "k' \<le> length txt"
    and 5: "st_at txt k g0 \<in> set (rmatch Y (st_at txt k' gk'))" by blast
  from 4 assms(2) have "ci_at txt b ''SELECT''" "k' = b + 6"
    by (auto simp: rmatch_lits_at split: if_splits)
  moreover from rmatch_at[OF 5 k'] have "k' \<le> k" by auto
  ultimately show ?thesis using ek gk tab by auto
qed

lemma traverse_Inr_iff:
  "traverse f xs = Inr ys \<longleftrightarrow> list_all2 (\<lambda>x y. f x = Inr y) xs ys"
proof (induction xs arbitrary: ys)
  case Nil
  then show ?case by auto
next
  case (Cons x xs)
  show ?case
  proof (cases "f x")
    case (Inl err)
    then show ?thesis by (auto simp: list_all2_Cons1)
  next
    case (Inr y)
    show ?thesis
    proof (cases "traverse f xs")
      case (Inl err)
      with Inr Cons.IH show ?thesis by (auto simp: list_all2_Cons1)
    next
      case r: (Inr zs)
      with Inr Cons.IH show ?thesis by (auto simp: list_all2_Cons1)
    qed
  qed
qed

lemma traverse_map:
  "(\<And>x. x \<in> set xs \<Longrightarrow> f x = Inr (h x)) \<Longrightarrow> traverse f xs = Inr (map h xs)"
  by (induction xs) auto


lemma traverse_total:
  "(\<And>x. x \<in> set xs \<Longrightarrow> \<exists>y. f x = Inr y) \<Longrightarrow> \<exists>ys. traverse f xs = Inr ys"
proof (induction xs)
  case Nil
  then show ?case by simp
next
  case (Cons x xs)
  from Cons.prems obtain y where y: "f x = Inr y" by auto
  from Cons.IH Cons.prems obtain ys where "traverse f xs = Inr ys" by auto
  with y show ?case by simp
qed






lemma mb_usage_of_match:
  assumes "(b, e, g) \<in> set (finditer MB_TXN_RE 0 None txt)"
  shows "\<exists>k. mb_usage_of txt (b, e, g) =
            Inr \<lparr> full = Some (slice txt b e), stmt = slice txt b k, txn = group txt g ''txn'',
                  suggested_statement = suggest_replacement (slice txt b k),
                  span = (int b, int e) \<rparr> \<and>
          b < k \<and> k \<le> e \<and> e \<le> length txt \<and> group txt g ''txn'' \<noteq> None \<and>
          (ci_at txt b ''SUBMIT'' \<and> k = b + 6 \<or> ci_at txt b ''CALL'' \<and> b + 4 \<le> k) \<and>
          period_closed txt e"
proof -
  from finditer_matches[OF assms] have be: "b \<le> e" "e \<le> length txt" and m: "match_at MB_TXN_RE txt b = Some (e, g)"
    by auto
  from be have b: "b \<le> length txt" by simp
  from mb_match_shape[OF m b] obtain k g' where
    s: "g = (''full'', b, e) # g'" "map_of g' ''stmt'' = Some (b, k)" "b < k" "k \<le> e"
      "map_of g' ''txn'' \<noteq> None"
      "ci_at txt b ''SUBMIT'' \<and> k = b + 6 \<or> ci_at txt b ''CALL'' \<and> b + 4 \<le> k"
      "period_closed txt e" by blast
  from s(1,2,5) have "mb_usage_of txt (b, e, g) =
            Inr \<lparr> full = Some (slice txt b e), stmt = slice txt b k, txn = group txt g ''txn'',
                  suggested_statement = suggest_replacement (slice txt b k),
                  span = (int b, int e) \<rparr>"
    by (simp add: mb_usage_of_def group_def span_of_def)
  moreover from s(1,5) have "group txt g ''txn'' \<noteq> None" by (auto simp: group_def split: option.splits)
  ultimately show ?thesis using s be by blast
qed

lemma find_mb_txn_usage_total: "\<exists>ms. find_mb_txn_usage txt = Inr ms"
  unfolding find_mb_txn_usage_def
proof (rule traverse_total)
  fix x assume x: "x \<in> set (finditer MB_TXN_RE 0 None txt)"
  obtain b e g where xe: "x = (b, e, g)" by (cases x)
  from mb_usage_of_match[OF x[unfolded xe]] show "\<exists>y. mb_usage_of txt x = Inr y"
    unfolding xe by blast
qed


lemma select_occ_of_match:
  assumes "(b, e, g) \<in> set (finditer SELECT_RE 0 None txt)"
  shows "\<exists>k tab. e = Suc k \<and> b + 6 \<le> k \<and> k < length txt \<and> txt ! k = CHR ''.'' \<and>
           ci_at txt b ''SELECT'' \<and>
           sel_text (select_occ_of txt (b, e, g)) = Some (slice txt b k) \<and>
           table (select_occ_of txt (b, e, g)) = Some tab \<and>
           select_occ.span (select_occ_of txt (b, e, g)) = (int b, int e)"
proof -
  from finditer_matches[OF assms] have be: "b \<le> e" "e \<le> length txt" and m: "match_at SELECT_RE txt b = Some (e, g)"
    by auto
  from be have b: "b \<le> length txt" by simp
  from select_match_shape[OF m b] obtain k g' where
    s: "e = Suc k" "g = (''full'', b, k) # g'" "b + 6 \<le> k" "k < length txt" "txt ! k = CHR ''.''"
       "ci_at txt b ''SELECT''" "map_of g' ''table'' \<noteq> None" by blast
  from s(2,7) obtain tab where "table (select_occ_of txt (b, e, g)) = Some tab"
    by (auto simp: select_occ_of_def group_def split: option.splits)
  moreover from s(2) have "sel_text (select_occ_of txt (b, e, g)) = Some (slice txt b k)"
    by (simp add: select_occ_of_def group_def)
  moreover have "select_occ.span (select_occ_of txt (b, e, g)) = (int b, int e)"
    by (simp add: select_occ_of_def)
  ultimately show ?thesis using s by blast
qed

lemma find_selects_mem:
  assumes "s \<in> set (find_selects txt)"
  shows "\<exists>b k tab. select_occ.span s = (int b, int (Suc k)) \<and> b + 6 \<le> k \<and> k < length txt \<and>
           txt ! k = CHR ''.'' \<and> ci_at txt b ''SELECT'' \<and> sel_text s = Some (slice txt b k) \<and> table s = Some tab"
proof -
  from assms obtain x where x: "x \<in> set (finditer SELECT_RE 0 None txt)" and s: "s = select_occ_of txt x"
    by (auto simp: find_selects_def)
  obtain b e g where xe: "x = (b, e, g)" by (cases x)
  from select_occ_of_match[OF x[unfolded xe]] s xe show ?thesis by fastforce
qed

section \<open>Searching for a keyword and for the DRAFT filter\<close>


lemma search_some_iff:
  "search r 0 None txt \<noteq> None \<longleftrightarrow> (\<exists>k\<le>length txt. match_at r txt k \<noteq> None)"
proof
  assume "search r 0 None txt \<noteq> None"
  then obtain b e q' cs' g where "search r 0 None txt = Some (b, e, q', cs', g)" by (cases "search r 0 None txt") auto
  from search_at[OF this st_at_0] show "\<exists>k\<le>length txt. match_at r txt k \<noteq> None" by auto
next
  assume "\<exists>k\<le>length txt. match_at r txt k \<noteq> None"
  then obtain k where k: "k \<le> length txt" "match_at r txt k \<noteq> None" by blast
  show "search r 0 None txt \<noteq> None"
  proof
    assume "search r 0 None txt = None"
    from search_none_at[OF this st_at_0 _ _ k(1)] k(2) show False by simp
  qed
qed

text \<open>
  A keyword at an offset: the word in some casing, with a word boundary on each side.
  This is what \<^verbatim>\<open>\bWHERE\b\<close> and \<^verbatim>\<open>\bINTO\b\<close> match.
\<close>

definition boundary_at :: "string \<Rightarrow> nat \<Rightarrow> bool" where
  "boundary_at txt i = at_boundary (prev_char txt i) (drop i txt)"

definition keyword_at :: "string \<Rightarrow> nat \<Rightarrow> string \<Rightarrow> bool" where
  "keyword_at txt i w = (boundary_at txt i \<and> ci_at txt i w \<and> boundary_at txt (i + length w))"

lemma rmatch_WordB_at:
  "rmatch WordB (st_at txt i g) = (if boundary_at txt i then [st_at txt i g] else [])"
  by (simp add: st_at_def boundary_at_def)

lemma match_at_Cons: "rmatch r (st_at txt b []) = st_at txt e g # ms \<Longrightarrow> match_at r txt b = Some (e, g)"
  by (simp add: match_at_def st_at_def)

lemma match_at_Nil: "rmatch r (st_at txt b []) = [] \<Longrightarrow> match_at r txt b = None"
  by (simp add: match_at_def)

lemma match_at_keyword:
  assumes "i \<le> length txt"
  shows "match_at (Seq WordB (Seq (lits w) WordB)) txt i =
           (if keyword_at txt i w then Some (i + length w, []) else None)"
proof (cases "keyword_at txt i w")
  case True
  with assms have "rmatch (Seq WordB (Seq (lits w) WordB)) (st_at txt i []) = st_at txt (i + length w) [] # []"
    by (simp add: rmatch_WordB_at rmatch_lits_at keyword_at_def)
  from match_at_Cons[OF this] True show ?thesis by simp
next
  case False
  with assms have "rmatch (Seq WordB (Seq (lits w) WordB)) (st_at txt i []) = []"
    by (auto simp add: rmatch_WordB_at rmatch_lits_at keyword_at_def)
  from match_at_Nil[OF this] False show ?thesis by simp
qed


lemma search_keyword_none:
  assumes "\<forall>k\<le>length txt. \<not> keyword_at txt k w"
  shows "search (Seq WordB (Seq (lits w) WordB)) 0 None txt = None"
proof -
  have "\<not> (\<exists>k\<le>length txt. match_at (Seq WordB (Seq (lits w) WordB)) txt k \<noteq> None)"
    using assms by (simp add: match_at_keyword)
  then show ?thesis using search_some_iff by blast
qed

text \<open>A pattern made of stars and options matches at every offset.\<close>

fun total_rx :: "rx \<Rightarrow> bool" where
  "total_rx (Star p) = True"
| "total_rx (StarLazy p) = True"
| "total_rx (Opt a) = True"
| "total_rx (Seq a b) = (total_rx a \<and> total_rx b)"
| "total_rx (Alt a b) = (total_rx a \<or> total_rx b)"
| "total_rx (Grp n a) = total_rx a"
| "total_rx r = False"

lemma run_greedy_nonempty: "run_greedy p g i q cs \<noteq> []"
  by (induction p g i q cs rule: run_greedy.induct) auto

lemma run_lazy_nonempty: "run_lazy p g i q cs \<noteq> []"
  by (induction p g i q cs rule: run_lazy.induct) auto

lemma total_rx_nonempty: "total_rx r \<Longrightarrow> rmatch r st \<noteq> []"
proof (induction r arbitrary: st)
  case (Seq a b)
  then obtain m ms where "rmatch a st = m # ms" by (cases "rmatch a st") auto
  moreover from Seq have "rmatch b m \<noteq> []" by simp
  ultimately show ?case by simp
next
  case (Star p)
  then show ?case by (cases st) (simp add: run_greedy_nonempty)
next
  case (StarLazy p)
  then show ?case by (cases st) (simp add: run_lazy_nonempty)
next
  case (Grp n a)
  then show ?case by (cases st) simp
qed auto

lemma ci_at_append:
  "ci_at txt i (u @ v) = (ci_at txt i u \<and> ci_at txt (i + length u) v)"
proof (induction u arbitrary: i)
  case Nil
  then show ?case by (auto simp: ci_at_Nil ci_at_def slice_def)
next
  case (Cons c u)
  then show ?case by (auto simp: ci_at_Cons)
qed

lemma ci_at_infix:
  assumes "txt = pre @ mid @ post" "map lower mid = map lower w"
  shows "ci_at txt (length pre) w"
proof -
  from assms(2) have l: "length mid = length w" by (metis length_map)
  with assms(1) have "slice txt (length pre) (length pre + length w) = mid"
    by (simp add: slice_def)
  with assms l show ?thesis by (simp add: ci_at_def)
qed

text \<open>The DRAFT check finds the filter wherever the text has it, in any casing.\<close>

lemma draft_re_matches:
  assumes "ci_at txt i (t @ ''-DRAFT ='')"
  shows "match_at (draft_re t) txt i \<noteq> None"
proof -
  define j where "j = i + length (t @ ''-DRAFT'')"
  define R where "R = Seq (Star is_space) (Seq (Opt (Cls quote)) (Seq (Opt (Cls is_space)) (Opt (Cls quote))))"
  have re: "draft_re t = Seq (lits (t @ ''-DRAFT'')) (Seq (Star is_space) (Seq (Lit CHR ''='') R))"
    by (simp add: draft_re_def R_def)
  have "t @ ''-DRAFT ='' = (t @ ''-DRAFT'') @ '' =''" by simp
  with assms have c: "ci_at txt i (t @ ''-DRAFT'')" "ci_at txt j '' =''"
    unfolding j_def by (simp_all only: ci_at_append)
  from c(1) have i: "i \<le> length txt" by (simp add: ci_at_def)
  from c(2) have j: "j < length txt" "txt ! j = CHR '' ''" "Suc j < length txt"
    "lower (txt ! Suc j) = lower CHR ''=''"
    by (auto simp: ci_at_Cons ci_at_Nil lower_eq_space lower_code alpha5_def)
  from c(1) i have 1: "rmatch (lits (t @ ''-DRAFT'')) (st_at txt i []) = [st_at txt j []]"
    by (simp add: rmatch_lits_at j_def)
  have s: "(j, prev_char txt j, drop j txt, []) = st_at txt j []" by (simp add: st_at_def)
  have "\<forall>k. j \<le> k \<and> k < Suc j \<longrightarrow> is_space (txt ! k)"
    using j(2) by (auto simp: is_space_def le_less_Suc_eq)
  from run_greedy_mem[OF s _ _ this] j(3) have
    2: "st_at txt (Suc j) [] \<in> set (rmatch (Star is_space) (st_at txt j []))"
    by (simp add: rmatch_Star_at)
  from j(3,4) have 3: "rmatch (Lit CHR ''='') (st_at txt (Suc j) []) = [st_at txt (Suc (Suc j)) []]"
    by (simp add: rmatch_Lit_at)
  have "total_rx R" by (simp add: R_def)
  then have 4: "rmatch R (st_at txt (Suc (Suc j)) []) \<noteq> []" by (rule total_rx_nonempty)
  from 3 4 have "rmatch (Seq (Lit CHR ''='') R) (st_at txt (Suc j) []) \<noteq> []" by simp
  with 2 have "rmatch (Seq (Star is_space) (Seq (Lit CHR ''='') R)) (st_at txt j []) \<noteq> []"
    by (auto simp del: rmatch.simps(9) simp add: rmatch.simps(6))
  with 1 have "rmatch (draft_re t) (st_at txt i []) \<noteq> []" by (simp add: re)
  then show ?thesis by (auto simp: match_at_def split: list.splits)
qed

lemma has_draft_filter:
  assumes "sel = pre @ mid @ post" "map lower mid = map lower (t @ ''-DRAFT ='')"
  shows "search (draft_re t) 0 None sel \<noteq> None"
proof -
  from ci_at_infix[OF assms] have c: "ci_at sel (length pre) (t @ ''-DRAFT ='')" .
  then have "length pre \<le> length sel" by (simp add: ci_at_def)
  with draft_re_matches[OF c] show ?thesis using search_some_iff by blast
qed

lemma ensure_draft_filter_has:
  assumes "sel = pre @ mid @ post" "map lower mid = map lower (str_upper tab @ ''-DRAFT ='')"
  shows "ensure_draft_filter sel tab = sel"
  using has_draft_filter[OF assms] by (simp add: ensure_draft_filter_def Let_def)

lemma ensure_draft_filter_idem:
  "ensure_draft_filter (ensure_draft_filter sel tab) tab = ensure_draft_filter sel tab"
proof -
  define t where "t = str_upper tab"
  have ins: "ensure_draft_filter (p @ t @ ''-DRAFT ='' @ q) tab = p @ t @ ''-DRAFT ='' @ q" for p q
    by (rule ensure_draft_filter_has[where pre = p and mid = "t @ ''-DRAFT =''" and post = q])
       (simp_all add: t_def)
  show ?thesis
  proof (cases "t \<in> watch_list")
    case False
    then show ?thesis by (simp add: ensure_draft_filter_def t_def)
  next
    case w: True
    show ?thesis
    proof (cases "search (draft_re t) 0 None sel")
      case (Some x)
      with w show ?thesis by (simp add: ensure_draft_filter_def t_def)
    next
      case d: None
      show ?thesis
      proof (cases "search WHERE_RE 0 None sel")
        case (Some x)
        obtain ws we st where x: "x = (ws, we, st)" by (cases x)
        from w d Some x have e: "ensure_draft_filter sel tab =
            (take we sel @ '' '') @ t @ ''-DRAFT ='' @ ('' SPACE AND'' @ drop we sel)"
          by (simp add: ensure_draft_filter_def t_def)
        show ?thesis unfolding e by (rule ins)
      next
        case n: None
        show ?thesis
        proof (cases "search INTO_RE 0 None sel")
          case (Some x)
          obtain ms st where x: "x = (ms, st)" by (cases x)
          from w d n Some x have e: "ensure_draft_filter sel tab =
              (take ms sel @ '' WHERE '') @ t @ ''-DRAFT ='' @ ('' SPACE '' @ drop ms sel)"
            by (simp add: ensure_draft_filter_def t_def)
          show ?thesis unfolding e by (rule ins)
        next
          case None
          with w d n have e: "ensure_draft_filter sel tab =
              (rstrip_dot sel @ '' WHERE '') @ t @ ''-DRAFT ='' @ '' SPACE.''"
            by (simp add: ensure_draft_filter_def t_def)
          show ?thesis unfolding e by (rule ins)
        qed
      qed
    qed
  qed
qed

section \<open>Whitespace normalisation\<close>











section \<open>The endpoints in closed form\<close>

lemma dict_set_new: "k \<notin> fst ` set d \<Longrightarrow> dict_set k v d = d @ [(k, v)]"
  by (induction d) auto

lemma model_dump_keys:
  "map fst (model_dump u) =
     [''pgm_name'', ''inc_name'', ''type'', ''name'', ''class_implementation'', ''start_line'',
      ''end_line'', ''code'']"
  by (simp add: model_dump_def)

lemma dict_set_model_dump:
  "k \<notin> set [''pgm_name'', ''inc_name'', ''type'', ''name'', ''class_implementation'', ''start_line'',
      ''end_line'', ''code''] \<Longrightarrow> dict_set k v (model_dump u) = model_dump u @ [(k, v)]"
  by (rule dict_set_new) (simp add: model_dump_def)

text \<open>The matches of the transaction rule in a text, and the records of the SELECT rule:
  the occurrences whose table is in the watch-list, each with the suggestion or
  \<^verbatim>\<open>None\<close>.\<close>

definition mb_usages :: "string \<Rightarrow> mb_usage list" where
  "mb_usages txt = (case find_mb_txn_usage txt of Inl err \<Rightarrow> [] | Inr ms \<Rightarrow> ms)"

definition in_watch_list :: "select_occ \<Rightarrow> bool" where
  "in_watch_list s = (case table s of None \<Rightarrow> False | Some tab \<Rightarrow> str_upper tab \<in> watch_list)"

text \<open>
  The field \<^verbatim>\<open>suggested_statement\<close> in the words of the specification: null exactly when
  the whitespace-normalised suggestion equals the raw matched text.
\<close>

definition spec_suggested_statement :: "select_occ \<Rightarrow> string option" where
  "spec_suggested_statement s =
     (case (sel_text s, table s) of
        (Some raw, Some tab) \<Rightarrow>
          (let normalised = build_replacement_stmt raw tab (target_type s) (target_name s)
           in if normalised = raw then None else Some normalised)
      | _ \<Rightarrow> None)"

lemma find_mb_txn_usage_eq: "find_mb_txn_usage txt = Inr (mb_usages txt)"
  using find_mb_txn_usage_total[of "txt"] by (auto simp: mb_usages_def)

lemma remediate_mb_unit_eq:
  "remediate_mb_unit u =
     Inr (model_dump u @ [(''mb_txn_usage'', PList (map mb_metadata (mb_usages (code_or_empty u))))])"
  by (simp add: remediate_mb_unit_def find_mb_txn_usage_eq dict_set_model_dump)

lemma remediate_mb_txns_eq:
  "remediate_mb_txns units =
     Inr (map (\<lambda>u. model_dump u @
            [(''mb_txn_usage'', PList (map mb_metadata (mb_usages (code_or_empty u))))]) units)"
  unfolding remediate_mb_txns_def by (rule traverse_map) (rule remediate_mb_unit_eq)

lemma select_entry_eq:
  assumes "s \<in> set (find_selects txt)"
  shows "select_entry s =
     Inr (if in_watch_list s
          then Some (sel_info s (spec_suggested_statement s),
                     map_option (\<lambda>n. (select_occ.span s, n)) (spec_suggested_statement s))
          else None)"
proof -
  from find_selects_mem[OF assms] obtain raw tab where "sel_text s = Some raw" "table s = Some tab"
    by blast
  then show ?thesis
    by (simp add: select_entry_def in_watch_list_def spec_suggested_statement_def Let_def)
qed

lemma somes_map_if:
  "map fst (somes (map (\<lambda>s. if P s then Some (f s, g s) else None) xs)) = map f (filter P xs)"
  by (induction xs) auto

lemma remediate_unit_eq:
  "remediate_unit u =
     Inr (model_dump u @
       [(''selects'', PList (map (\<lambda>s. sel_info s (spec_suggested_statement s))
                              (filter in_watch_list (find_selects (code_or_empty u)))))])"
proof -
  have "traverse select_entry (find_selects (code_or_empty u)) =
      Inr (map (\<lambda>s. if in_watch_list s
          then Some (sel_info s (spec_suggested_statement s),
                     map_option (\<lambda>n. (select_occ.span s, n)) (spec_suggested_statement s))
          else None) (find_selects (code_or_empty u)))"
    by (rule traverse_map) (rule select_entry_eq)
  then show ?thesis
    by (simp add: remediate_unit_def Let_def somes_map_if dict_set_model_dump)
qed

lemma remediate_array_eq:
  "remediate_array units =
     Inr (map (\<lambda>u. model_dump u @
       [(''selects'', PList (map (\<lambda>s. sel_info s (spec_suggested_statement s))
                              (filter in_watch_list (find_selects (code_or_empty u)))))]) units)"
  unfolding remediate_array_def by (rule traverse_map) (rule remediate_unit_eq)

text \<open>The start offset of a metadata record.\<close>

fun start_char_in_unit :: "pyval \<Rightarrow> int option" where
  "start_char_in_unit (PDict d) =
     (case map_of d ''start_char_in_unit'' of Some (PInt n) \<Rightarrow> Some n | _ \<Rightarrow> None)"
| "start_char_in_unit v = None"

lemma start_char_mb_metadata: "start_char_in_unit (mb_metadata m) = Some (fst (mb_usage.span m))"
  by (simp add: mb_metadata_def)

lemma start_char_sel_info: "start_char_in_unit (sel_info s x) = Some (fst (select_occ.span s))"
  by (simp add: sel_info_def)

lemma sorted_map_int: "sorted (map fst xs) \<Longrightarrow> sorted (map (\<lambda>x. int (fst x)) xs)"
  by (induction xs) auto

lemma list_all2_map_eq:
  "list_all2 P xs ys \<Longrightarrow> (\<And>x y. x \<in> set xs \<Longrightarrow> P x y \<Longrightarrow> f y = g x) \<Longrightarrow> map f ys = map g xs"
  by (induction rule: list_all2_induct) auto

lemma mb_usages_starts:
  "map (\<lambda>m. fst (mb_usage.span m)) (mb_usages txt) =
     map (\<lambda>x. int (fst x)) (finditer MB_TXN_RE 0 None txt)"
proof -
  have "list_all2 (\<lambda>x y. mb_usage_of txt x = Inr y) (finditer MB_TXN_RE 0 None txt) (mb_usages txt)"
    using find_mb_txn_usage_eq[of "txt"] by (simp add: find_mb_txn_usage_def traverse_Inr_iff)
  then show ?thesis
  proof (rule list_all2_map_eq)
    fix x y assume x: "x \<in> set (finditer MB_TXN_RE 0 None txt)" and y: "mb_usage_of txt x = Inr y"
    obtain b e g where xe: "x = (b, e, g)" by (cases x)
    from mb_usage_of_match[OF x[unfolded xe]] y xe show "fst (mb_usage.span y) = int (fst x)"
      by auto
  qed
qed

lemma mb_records_sorted:
  "\<exists>starts. map start_char_in_unit (map mb_metadata (mb_usages txt)) = map Some starts \<and> sorted starts"
proof -
  have "map start_char_in_unit (map mb_metadata (mb_usages txt)) =
          map Some (map (\<lambda>m. fst (mb_usage.span m)) (mb_usages txt))"
    by (simp add: start_char_mb_metadata)
  moreover have "sorted (map (\<lambda>m. fst (mb_usage.span m)) (mb_usages txt))"
    unfolding mb_usages_starts by (rule sorted_map_int) (rule finditer_sorted)
  ultimately show ?thesis by blast
qed

lemma sorted_map_filter: "sorted (map f xs) \<Longrightarrow> sorted (map f (filter P xs))"
  by (induction xs) auto

lemma select_records_sorted:
  "\<exists>starts. map start_char_in_unit (map (\<lambda>s. sel_info s (spec_suggested_statement s))
                (filter in_watch_list (find_selects txt))) = map Some starts \<and> sorted starts"
proof -
  have "map start_char_in_unit (map (\<lambda>s. sel_info s (spec_suggested_statement s))
                (filter in_watch_list (find_selects txt))) =
        map Some (map (\<lambda>s. fst (select_occ.span s)) (filter in_watch_list (find_selects txt)))"
    by (simp add: start_char_sel_info)
  moreover have "map (\<lambda>s. fst (select_occ.span s)) (find_selects txt) =
      map (\<lambda>x. int (fst x)) (finditer SELECT_RE 0 None txt)"
    by (auto simp: find_selects_def select_occ_of_def)
  then have "sorted (map (\<lambda>s. fst (select_occ.span s)) (find_selects txt))"
    by (simp only:) (rule sorted_map_int, rule finditer_sorted)
  then have "sorted (map (\<lambda>s. fst (select_occ.span s)) (filter in_watch_list (find_selects txt)))"
    by (rule sorted_map_filter)
  ultimately show ?thesis by blast
qed

lemma select_record_table:
  assumes "s \<in> set (filter in_watch_list (find_selects txt))"
  shows "\<exists>d t. sel_info s x = PDict d \<and> map_of d ''table'' = Some (PStr t) \<and> str_upper t \<in> watch_list"
proof -
  from assms have "in_watch_list s" by simp
  then obtain t where "table s = Some t" "str_upper t \<in> watch_list"
    by (auto simp: in_watch_list_def split: option.splits)
  then show ?thesis by (simp add: sel_info_def opt_str_def)
qed

section \<open>Splicing replacements into a text\<close>

text \<open>
  What the documentation of \<^verbatim>\<open>apply_span_replacements\<close> promises, written down
  independently of the loop: a span \<^verbatim>\<open>(s, e)\<close> lies within the text when
  \<^verbatim>\<open>0 <= s <= e <= len(text)\<close>, two spans do not overlap when one ends no later than
  the other starts, and the replaced text is read off from left to right: the untouched
  text up to the first span, its replacement, the untouched text up to the next span,
  and so on, and the rest of the text after the last span.
\<close>

definition within :: "string \<Rightarrow> int \<times> int \<Rightarrow> bool" where
  "within source sp = (0 \<le> fst sp \<and> fst sp \<le> snd sp \<and> snd sp \<le> int (length source))"

definition disjoint_spans :: "int \<times> int \<Rightarrow> int \<times> int \<Rightarrow> bool" where
  "disjoint_spans a b = (snd a \<le> fst b \<or> snd b \<le> fst a)"

fun non_overlapping :: "(int \<times> int) list \<Rightarrow> bool" where
  "non_overlapping [] = True"
| "non_overlapping (a # as) = (list_all (disjoint_spans a) as \<and> non_overlapping as)"

fun splice_from :: "nat \<Rightarrow> string \<Rightarrow> ((int \<times> int) \<times> string) list \<Rightarrow> string" where
  "splice_from pos source [] = drop pos source"
| "splice_from pos source (((s, e), r) # ps) =
     slice source pos (nat s) @ r @ splice_from (nat e) source ps"

definition replaced :: "string \<Rightarrow> ((int \<times> int) \<times> string) list \<Rightarrow> string" where
  "replaced source repls = splice_from 0 source (sort_key (\<lambda>x. fst (fst x)) repls)"

text \<open>
  A list of replacements is chained from \<open>lo\<close> when its spans follow one another from
  left to right, the first starting at \<open>lo\<close> or later and the last ending within a text
  of \<open>n\<close> characters.
\<close>

fun chained :: "int \<Rightarrow> nat \<Rightarrow> ((int \<times> int) \<times> string) list \<Rightarrow> bool" where
  "chained lo n [] = (lo \<le> int n)"
| "chained lo n (((s, e), r) # ps) = (lo \<le> s \<and> s \<le> e \<and> e \<le> int n \<and> chained e n ps)"

definition splice_step :: "string \<Rightarrow> (int \<times> int) \<times> string \<Rightarrow> string" where
  "splice_step out x =
     (case x of ((s, e), r) \<Rightarrow> take (py_index out s) out @ r @ drop (py_index out e) out)"

lemma apply_span_replacements_foldr:
  "apply_span_replacements source repls =
     foldr (\<lambda>x out. splice_step out x) (sort_key (\<lambda>x. fst (fst x)) (rev repls)) source"
proof -
  have "(\<lambda>out x. case x of ((s, e), r) \<Rightarrow> take (py_index out s) out @ r @ drop (py_index out e) out)
          = (\<lambda>out x. splice_step out x)"
    by (simp add: splice_step_def fun_eq_iff)
  then show ?thesis
    by (simp add: apply_span_replacements_def foldr_conv_foldl)
qed

lemma take_slice:
  "a \<le> b \<Longrightarrow> take a source @ slice source a b = take b source"
proof -
  assume "a \<le> b"
  then have "take b source = take (a + (b - a)) source" by simp
  also have "\<dots> = take a source @ take (b - a) (drop a source)" by (rule take_add)
  finally show ?thesis by (simp add: slice_def)
qed

lemma foldr_chained:
  "0 \<le> lo \<Longrightarrow> chained lo (length source) ps \<Longrightarrow>
     foldr (\<lambda>x out. splice_step out x) ps source = take (nat lo) source @ splice_from (nat lo) source ps"
proof (induction ps arbitrary: lo)
  case Nil
  then show ?case by simp
next
  case (Cons x ps)
  obtain s e r where x: "x = ((s, e), r)" by (cases x) auto
  from Cons.prems x have b: "lo \<le> s" "s \<le> e" "e \<le> int (length source)"
    and c: "chained e (length source) ps" by auto
  from b Cons.prems(1) have e0: "0 \<le> e" and s0: "0 \<le> s" by auto
  let ?rest = "splice_from (nat e) source ps"
  from Cons.IH[OF e0 c]
  have inner: "foldr (\<lambda>x out. splice_step out x) ps source = take (nat e) source @ ?rest" .
  from b e0 have le: "length (take (nat e) source) = nat e" by simp
  from b s0 have se: "nat s \<le> nat e" by simp
  have t: "take (nat s) (take (nat e) source @ ?rest) = take (nat s) source"
    using se le by (simp add: min_def)
  have d: "drop (nat e) (take (nat e) source @ ?rest) = ?rest"
    using le by simp
  have "splice_step (take (nat e) source @ ?rest) x = take (nat s) source @ r @ ?rest"
    using s0 e0 t d by (simp add: splice_step_def x py_index_def)
  moreover from b Cons.prems(1) have "nat lo \<le> nat s" by simp
  then have "take (nat lo) source @ slice source (nat lo) (nat s) = take (nat s) source"
    by (rule take_slice)
  ultimately show ?case using inner by (simp add: x)
qed

lemma non_overlapping_pairs:
  "non_overlapping (map fst ps) \<Longrightarrow> distinct ps \<Longrightarrow>
     x \<in> set ps \<Longrightarrow> y \<in> set ps \<Longrightarrow> x \<noteq> y \<Longrightarrow> disjoint_spans (fst x) (fst y)"
proof (induction ps)
  case Nil
  then show ?case by simp
next
  case (Cons a ps)
  from Cons.prems(1) have all: "\<forall>z\<in>set ps. disjoint_spans (fst a) (fst z)"
    and rest: "non_overlapping (map fst ps)"
    by (auto simp: list_all_iff)
  have sym: "\<And>u v. disjoint_spans u v \<Longrightarrow> disjoint_spans v u"
    by (auto simp: disjoint_spans_def)
  show ?case
  proof (cases "x = a")
    case True
    with Cons.prems have "y \<in> set ps" by auto
    with all True show ?thesis by simp
  next
    case xa: False
    show ?thesis
    proof (cases "y = a")
      case True
      with Cons.prems xa have "x \<in> set ps" by auto
      with all True sym show ?thesis by blast
    next
      case False
      with xa Cons.prems have "x \<in> set ps" "y \<in> set ps" "distinct ps" by auto
      with Cons.IH[OF rest] Cons.prems(5) show ?thesis by blast
    qed
  qed
qed

lemma sorted_chained:
  assumes "sorted (map (\<lambda>x. fst (fst x)) ps)"
    and "distinct (map (\<lambda>x. fst (fst x)) ps)"
    and "\<forall>x\<in>set ps. within source (fst x)"
    and "\<forall>x\<in>set ps. \<forall>y\<in>set ps. x \<noteq> y \<longrightarrow> disjoint_spans (fst x) (fst y)"
    and "\<forall>x\<in>set ps. lo \<le> fst (fst x)"
    and "lo \<le> int (length source)"
  shows "chained lo (length source) ps"
  using assms
proof (induction ps arbitrary: lo)
  case Nil
  then show ?case by simp
next
  case (Cons x ps)
  obtain s e r where x: "x = ((s, e), r)" by (cases x) auto
  from Cons.prems(3) x have w: "0 \<le> s" "s \<le> e" "e \<le> int (length source)"
    by (auto simp: within_def)
  from Cons.prems(5) x have lo: "lo \<le> s" by simp
  have after: "\<forall>y\<in>set ps. e \<le> fst (fst y)"
  proof
    fix y assume y: "y \<in> set ps"
    from Cons.prems(1) y x have le: "s \<le> fst (fst y)" by auto
    from Cons.prems(2) y x have ne: "s \<noteq> fst (fst y)" by auto
    then have "x \<noteq> y" using x by auto
    with Cons.prems(4) y have "disjoint_spans (fst x) (fst y)" by simp
    then have "e \<le> fst (fst y) \<or> snd (fst y) \<le> s" by (simp add: disjoint_spans_def x)
    moreover from Cons.prems(3) y have "fst (fst y) \<le> snd (fst y)" by (simp add: within_def)
    ultimately show "e \<le> fst (fst y)" using le ne by auto
  qed
  have "chained e (length source) ps"
  proof (rule Cons.IH)
    show "sorted (map (\<lambda>x. fst (fst x)) ps)" using Cons.prems(1) by simp
    show "distinct (map (\<lambda>x. fst (fst x)) ps)" using Cons.prems(2) by simp
    show "\<forall>x\<in>set ps. within source (fst x)" using Cons.prems(3) by simp
    show "\<forall>x\<in>set ps. \<forall>y\<in>set ps. x \<noteq> y \<longrightarrow> disjoint_spans (fst x) (fst y)"
      using Cons.prems(4) by simp
    show "\<forall>x\<in>set ps. e \<le> fst (fst x)" by (rule after)
    show "e \<le> int (length source)" by (rule w)
  qed
  with lo w show ?case by (simp add: x)
qed

lemma sort_key_rev_distinct:
  assumes "distinct (map f xs)"
  shows "sort_key f (rev xs) = sort_key f xs"
proof (rule map_sorted_distinct_set_unique[where f = f])
  from assms have d: "distinct xs" and i: "inj_on f (set xs)" by (simp_all add: distinct_map)
  show "inj_on f (set (sort_key f (rev xs)) \<union> set (sort_key f xs))" using i by simp
  show "sorted (map f (sort_key f (rev xs)))" by (rule sorted_sort_key)
  show "sorted (map f (sort_key f xs))" by (rule sorted_sort_key)
  show "distinct (map f (sort_key f (rev xs)))" using d i by (simp add: distinct_map)
  show "distinct (map f (sort_key f xs))" using d i by (simp add: distinct_map)
  show "set (sort_key f (rev xs)) = set (sort_key f xs)" by simp
qed

section \<open>Claims about the matchers\<close>

text \<open>
  C1 (the SELECT rule's part fails on the code). \<^verbatim>\<open>find_selects\<close> records the text of
  the group \<^verbatim>\<open>full\<close>, which stops before the period, together with \<^verbatim>\<open>m.span(0)\<close>, which
  includes the period: for the unit text \<^verbatim>\<open>SELECT * FROM VBRK INTO TABLE lt.\<close> the
  recorded span is \<open>(0, 33)\<close>, the slice of the code at that span ends with the period, and
  the recorded text does not. \<^verbatim>\<open>find_mb_txn_usage\<close> pairs \<^verbatim>\<open>m.span("full")\<close> with
  \<^verbatim>\<open>m.group("full")\<close>, for which the equality holds.
\<close>

theorem select_span_exceeds_text:
  "find_selects ''SELECT * FROM VBRK INTO TABLE lt.'' =
     [\<lparr> sel_text = Some ''SELECT * FROM VBRK INTO TABLE lt'', table = Some ''VBRK'',
        target_type = ''itab'', target_name = Some ''lt'', span = (0, 33) \<rparr>]
   \<and> slice ''SELECT * FROM VBRK INTO TABLE lt.'' 0 33 = ''SELECT * FROM VBRK INTO TABLE lt.''
   \<and> slice ''SELECT * FROM VBRK INTO TABLE lt.'' 0 33 \<noteq> ''SELECT * FROM VBRK INTO TABLE lt''"
  by code_simp






text \<open>
  C9. The transaction pattern has no word boundary after the code: in
  \<^verbatim>\<open>SUBMIT MB011.\<close> the code \<^verbatim>\<open>MB01\<close> is a proper prefix of the identifier \<^verbatim>\<open>MB011\<close>,
  and the matcher reports one finding whose code is \<^verbatim>\<open>MB01\<close> and whose span ends at
  offset 11, before the rest \<^verbatim>\<open>1.\<close> of the text.
\<close>

theorem mb_txn_prefix_of_identifier:
  "find_mb_txn_usage ''SUBMIT MB011.'' =
     Inr [\<lparr> full = Some ''SUBMIT MB01'', stmt = ''SUBMIT'', txn = Some ''MB01'',
            suggested_statement = ''SUBMIT MIGO.'', span = (0, 11) \<rparr>]
   \<and> drop 11 ''SUBMIT MB011.'' = ''1.''"
  by code_simp

section \<open>Claims about the suggestion for a SELECT\<close>

text \<open>A unit with the given code text, for the scenarios.\<close>

definition example_unit :: "string \<Rightarrow> Unit" where
  "example_unit c =
     \<lparr> pgm_name = ''ZPROG'', inc_name = ''ZINCL'', type = ''PROG'', name = None,
       class_implementation = None, start_line = None, end_line = None, code = Some c \<rparr>"



text \<open>
  C4. A statement that contains \<^verbatim>\<open><TABLE>-DRAFT =\<close> in any casing, whatever follows the
  equals sign, is returned unchanged (for every table name, so for the watch-listed ones);
  and \<^verbatim>\<open>ensure_draft_filter\<close> is idempotent: applied to its own output, it inserts no
  second condition.
\<close>

theorem ensure_draft_filter_idempotent:
  "(sel = pre @ mid @ post \<and> map lower mid = map lower (str_upper tab @ ''-DRAFT ='') \<longrightarrow>
      ensure_draft_filter sel tab = sel) \<and>
   ensure_draft_filter (ensure_draft_filter sel tab) tab = ensure_draft_filter sel tab"
  using ensure_draft_filter_has ensure_draft_filter_idem by blast

theorem ensure_draft_filter_idempotent_witness:
  "map lower ''Vbrk-Draft ='' = map lower (str_upper ''vbrk'' @ ''-DRAFT ='') \<and>
   ensure_draft_filter ''SELECT * FROM vbrk WHERE Vbrk-Draft = SPACE INTO TABLE lt'' ''vbrk'' =
     ''SELECT * FROM vbrk WHERE Vbrk-Draft = SPACE INTO TABLE lt'' \<and>
   ensure_draft_filter ''SELECT * FROM VBRK INTO TABLE lt'' ''VBRK'' =
     ''SELECT * FROM VBRK  WHERE VBRK-DRAFT = SPACE INTO TABLE lt'' \<and>
   ensure_draft_filter (ensure_draft_filter ''SELECT * FROM VBRK INTO TABLE lt'' ''VBRK'') ''VBRK'' =
     ''SELECT * FROM VBRK  WHERE VBRK-DRAFT = SPACE INTO TABLE lt''"
proof -
  have h: "map lower ''Vbrk-Draft ='' = map lower (str_upper ''vbrk'' @ ''-DRAFT ='')" by code_simp
  have d: "''SELECT * FROM vbrk WHERE Vbrk-Draft = SPACE INTO TABLE lt'' =
             ''SELECT * FROM vbrk WHERE '' @ ''Vbrk-Draft ='' @ '' SPACE INTO TABLE lt''" by simp
  from ensure_draft_filter_idempotent[of "''SELECT * FROM vbrk WHERE Vbrk-Draft = SPACE INTO TABLE lt''"
      "''SELECT * FROM vbrk WHERE ''" "''Vbrk-Draft =''" "'' SPACE INTO TABLE lt''" "''vbrk''"] h d
  have 1: "ensure_draft_filter ''SELECT * FROM vbrk WHERE Vbrk-Draft = SPACE INTO TABLE lt'' ''vbrk'' =
     ''SELECT * FROM vbrk WHERE Vbrk-Draft = SPACE INTO TABLE lt''" by blast
  have 2: "ensure_draft_filter ''SELECT * FROM VBRK INTO TABLE lt'' ''VBRK'' =
     ''SELECT * FROM VBRK  WHERE VBRK-DRAFT = SPACE INTO TABLE lt''" by code_simp
  from ensure_draft_filter_idempotent[of "''SELECT * FROM VBRK INTO TABLE lt''" "[]" "[]" "[]" "''VBRK''"] 2
  have 3: "ensure_draft_filter (ensure_draft_filter ''SELECT * FROM VBRK INTO TABLE lt'' ''VBRK'') ''VBRK'' =
     ''SELECT * FROM VBRK  WHERE VBRK-DRAFT = SPACE INTO TABLE lt''" by simp
  show ?thesis by (intro conjI h 1 2 3)
qed

section \<open>Claims about the endpoints\<close>

text \<open>
  C5. \<^verbatim>\<open>remediate_array\<close> raises no exception and returns one dictionary per unit; the
  list under \<^verbatim>\<open>selects\<close> has one record for each matched SELECT whose table is in the
  watch-list (compared in upper case) and none for any other match, and the table name of
  every record is in the watch-list. A SELECT on \<^verbatim>\<open>MARA\<close> gives no record, with
  \<^verbatim>\<open>INTO TABLE\<close> and with \<^verbatim>\<open>INTO\<close>.
\<close>

theorem selects_only_watch_listed:
  "(\<exists>outs. remediate_array units = Inr outs \<and> length outs = length units \<and>
      (\<forall>i<length units.
         \<exists>recs. map_of (outs ! i) ''selects'' = Some (PList recs) \<and>
           length recs = length (filter in_watch_list (find_selects (code_or_empty (units ! i)))) \<and>
           (\<forall>r\<in>set recs. \<exists>d t. r = PDict d \<and> map_of d ''table'' = Some (PStr t) \<and>
                                 str_upper t \<in> watch_list))) \<and>
   remediate_array [example_unit ''SELECT * FROM MARA INTO TABLE lt.''] =
     Inr [model_dump (example_unit ''SELECT * FROM MARA INTO TABLE lt.'') @ [(''selects'', PList [])]] \<and>
   remediate_array [example_unit ''SELECT SINGLE a FROM mara INTO @ls.''] =
     Inr [model_dump (example_unit ''SELECT SINGLE a FROM mara INTO @ls.'') @ [(''selects'', PList [])]]"
proof (intro conjI)
  let ?recs = "\<lambda>u. map (\<lambda>s. sel_info s (spec_suggested_statement s))
                       (filter in_watch_list (find_selects (code_or_empty u)))"
  let ?outs = "map (\<lambda>u. model_dump u @ [(''selects'', PList (?recs u))]) units"
  have "\<forall>i<length units.
         \<exists>recs. map_of (?outs ! i) ''selects'' = Some (PList recs) \<and>
           length recs = length (filter in_watch_list (find_selects (code_or_empty (units ! i)))) \<and>
           (\<forall>r\<in>set recs. \<exists>d t. r = PDict d \<and> map_of d ''table'' = Some (PStr t) \<and>
                                 str_upper t \<in> watch_list)"
  proof (intro allI impI)
    fix i assume i: "i < length units"
    have 1: "map_of (?outs ! i) ''selects'' = Some (PList (?recs (units ! i)))"
      using i by (simp add: model_dump_def)
    have 2: "length (?recs (units ! i)) =
               length (filter in_watch_list (find_selects (code_or_empty (units ! i))))" by simp
    have 3: "\<forall>r\<in>set (?recs (units ! i)). \<exists>d t. r = PDict d \<and> map_of d ''table'' = Some (PStr t) \<and>
                                 str_upper t \<in> watch_list"
      using select_record_table by (auto simp del: set_filter)
    from 1 2 3 show "\<exists>recs. map_of (?outs ! i) ''selects'' = Some (PList recs) \<and>
           length recs = length (filter in_watch_list (find_selects (code_or_empty (units ! i)))) \<and>
           (\<forall>r\<in>set recs. \<exists>d t. r = PDict d \<and> map_of d ''table'' = Some (PStr t) \<and>
                                 str_upper t \<in> watch_list)"
      by blast
  qed
  then show "\<exists>outs. remediate_array units = Inr outs \<and> length outs = length units \<and>
      (\<forall>i<length units.
         \<exists>recs. map_of (outs ! i) ''selects'' = Some (PList recs) \<and>
           length recs = length (filter in_watch_list (find_selects (code_or_empty (units ! i)))) \<and>
           (\<forall>r\<in>set recs. \<exists>d t. r = PDict d \<and> map_of d ''table'' = Some (PStr t) \<and>
                                 str_upper t \<in> watch_list))"
    using remediate_array_eq[of units] by (intro exI[of _ ?outs]) simp
next
  show "remediate_array [example_unit ''SELECT * FROM MARA INTO TABLE lt.''] =
     Inr [model_dump (example_unit ''SELECT * FROM MARA INTO TABLE lt.'') @ [(''selects'', PList [])]]"
    by code_simp
next
  show "remediate_array [example_unit ''SELECT SINGLE a FROM mara INTO @ls.''] =
     Inr [model_dump (example_unit ''SELECT SINGLE a FROM mara INTO @ls.'') @ [(''selects'', PList [])]]"
    by code_simp
qed

theorem selects_only_watch_listed_witness:
  "remediate_array [example_unit ''SELECT a FROM MARA INTO b. SELECT c FROM vbrk INTO d.''] =
     Inr [model_dump (example_unit ''SELECT a FROM MARA INTO b. SELECT c FROM vbrk INTO d.'') @
          [(''selects'', PList [sel_info
              \<lparr> sel_text = Some ''SELECT c FROM vbrk INTO d'', table = Some ''vbrk'',
                target_type = ''wa'', target_name = Some ''d'', span = (27, 53) \<rparr>
              (Some ''SELECT c FROM vbrk WHERE VBRK-DRAFT = SPACE INTO d'')])]] \<and>
   length (find_selects ''SELECT a FROM MARA INTO b. SELECT c FROM vbrk INTO d.'') = 2 \<and>
   length (filter in_watch_list (find_selects ''SELECT a FROM MARA INTO b. SELECT c FROM vbrk INTO d.'')) = 1 \<and>
   str_upper ''vbrk'' \<in> watch_list"
proof -
  let ?T = "''SELECT a FROM MARA INTO b. SELECT c FROM vbrk INTO d.''"
  let ?R = "sel_info
              \<lparr> sel_text = Some ''SELECT c FROM vbrk INTO d'', table = Some ''vbrk'',
                target_type = ''wa'', target_name = Some ''d'', span = (27, 53) \<rparr>
              (Some ''SELECT c FROM vbrk WHERE VBRK-DRAFT = SPACE INTO d'')"
  have e: "remediate_array [example_unit ?T] =
     Inr [model_dump (example_unit ?T) @ [(''selects'', PList [?R])]]"
    by code_simp
  have n: "length (find_selects ?T) = 2" by code_simp
  from selects_only_watch_listed[of "[example_unit ?T]"] obtain outs where
    o: "remediate_array [example_unit ?T] = Inr outs"
       "\<forall>i<length [example_unit ?T].
         \<exists>recs. map_of (outs ! i) ''selects'' = Some (PList recs) \<and>
           length recs = length (filter in_watch_list (find_selects (code_or_empty ([example_unit ?T] ! i)))) \<and>
           (\<forall>r\<in>set recs. \<exists>d t. r = PDict d \<and> map_of d ''table'' = Some (PStr t) \<and>
                                 str_upper t \<in> watch_list)"
    by blast
  from o(1) e have outs: "outs = [model_dump (example_unit ?T) @ [(''selects'', PList [?R])]]" by simp
  from o(2) have "\<exists>recs. map_of (outs ! 0) ''selects'' = Some (PList recs) \<and>
           length recs = length (filter in_watch_list (find_selects (code_or_empty ([example_unit ?T] ! 0)))) \<and>
           (\<forall>r\<in>set recs. \<exists>d t. r = PDict d \<and> map_of d ''table'' = Some (PStr t) \<and>
                                 str_upper t \<in> watch_list)"
    by (simp del: find_selects_def)
  then obtain recs where
    r: "map_of (outs ! 0) ''selects'' = Some (PList recs)"
       "length recs = length (filter in_watch_list (find_selects (code_or_empty (example_unit ?T))))"
       "\<forall>r\<in>set recs. \<exists>d t. r = PDict d \<and> map_of d ''table'' = Some (PStr t) \<and> str_upper t \<in> watch_list"
    by auto
  from r(1) outs have recs: "recs = [?R]" by (simp add: model_dump_def)
  have c: "code_or_empty (example_unit ?T) = ?T" by (simp add: code_or_empty_def example_unit_def)
  from r(2) recs c have l: "length (filter in_watch_list (find_selects ?T)) = 1" by simp
  from r(3) recs have w: "str_upper ''vbrk'' \<in> watch_list" by (simp add: sel_info_def opt_str_def)
  show ?thesis by (intro conjI e n l w)
qed



text \<open>
  C8. Each endpoint raises no exception and returns one dictionary per unit, in the order
  of the units: the dump of the unit (its eight fields in their order, with their
  values, the code text among them) followed by exactly one new field, \<^verbatim>\<open>mb_txn_usage\<close>
  or \<^verbatim>\<open>selects\<close>, which is not a field of the unit and holds the metadata records of
  that unit's code, their start offsets in ascending order.
\<close>

theorem endpoints_keep_units:
  "(\<exists>outs. remediate_mb_txns units = Inr outs \<and> length outs = length units \<and>
      (\<forall>i<length units.
         \<exists>ms starts. find_mb_txn_usage (code_or_empty (units ! i)) = Inr ms \<and>
           outs ! i = model_dump (units ! i) @ [(''mb_txn_usage'', PList (map mb_metadata ms))] \<and>
           map start_char_in_unit (map mb_metadata ms) = map Some starts \<and> sorted starts)) \<and>
   (\<exists>outs. remediate_array units = Inr outs \<and> length outs = length units \<and>
      (\<forall>i<length units.
         \<exists>recs starts.
           recs = map (\<lambda>s. sel_info s (spec_suggested_statement s))
                    (filter in_watch_list (find_selects (code_or_empty (units ! i)))) \<and>
           outs ! i = model_dump (units ! i) @ [(''selects'', PList recs)] \<and>
           map start_char_in_unit recs = map Some starts \<and> sorted starts)) \<and>
   model_dump u =
     [(''pgm_name'', PStr (pgm_name u)), (''inc_name'', PStr (inc_name u)), (''type'', PStr (type u)),
      (''name'', opt_str (name u)), (''class_implementation'', opt_str (class_implementation u)),
      (''start_line'', opt_int (start_line u)), (''end_line'', opt_int (end_line u)),
      (''code'', opt_str (code u))] \<and>
   ''mb_txn_usage'' \<notin> set (map fst (model_dump u)) \<and> ''selects'' \<notin> set (map fst (model_dump u))"
proof (intro conjI)
  let ?outs = "map (\<lambda>u. model_dump u @
            [(''mb_txn_usage'', PList (map mb_metadata (mb_usages (code_or_empty u))))]) units"
  have "\<forall>i<length units.
         \<exists>ms starts. find_mb_txn_usage (code_or_empty (units ! i)) = Inr ms \<and>
           ?outs ! i = model_dump (units ! i) @ [(''mb_txn_usage'', PList (map mb_metadata ms))] \<and>
           map start_char_in_unit (map mb_metadata ms) = map Some starts \<and> sorted starts"
  proof (intro allI impI)
    fix i assume i: "i < length units"
    from mb_records_sorted[of "code_or_empty (units ! i)"] obtain starts where
      "map start_char_in_unit (map mb_metadata (mb_usages (code_or_empty (units ! i)))) = map Some starts"
      "sorted starts" by blast
    with i find_mb_txn_usage_eq[of "code_or_empty (units ! i)"]
    show "\<exists>ms starts. find_mb_txn_usage (code_or_empty (units ! i)) = Inr ms \<and>
           ?outs ! i = model_dump (units ! i) @ [(''mb_txn_usage'', PList (map mb_metadata ms))] \<and>
           map start_char_in_unit (map mb_metadata ms) = map Some starts \<and> sorted starts"
      by (intro exI[of _ "mb_usages (code_or_empty (units ! i))"] exI[of _ starts]) simp
  qed
  then show "\<exists>outs. remediate_mb_txns units = Inr outs \<and> length outs = length units \<and>
      (\<forall>i<length units.
         \<exists>ms starts. find_mb_txn_usage (code_or_empty (units ! i)) = Inr ms \<and>
           outs ! i = model_dump (units ! i) @ [(''mb_txn_usage'', PList (map mb_metadata ms))] \<and>
           map start_char_in_unit (map mb_metadata ms) = map Some starts \<and> sorted starts)"
    using remediate_mb_txns_eq[of units] by (intro exI[of _ ?outs]) simp
next
  let ?recs = "\<lambda>u. map (\<lambda>s. sel_info s (spec_suggested_statement s))
                       (filter in_watch_list (find_selects (code_or_empty u)))"
  let ?outs = "map (\<lambda>u. model_dump u @ [(''selects'', PList (?recs u))]) units"
  have "\<forall>i<length units.
         \<exists>recs starts. recs = ?recs (units ! i) \<and>
           ?outs ! i = model_dump (units ! i) @ [(''selects'', PList recs)] \<and>
           map start_char_in_unit recs = map Some starts \<and> sorted starts"
  proof (intro allI impI)
    fix i assume i: "i < length units"
    from select_records_sorted[of "code_or_empty (units ! i)"] obtain starts where
      "map start_char_in_unit (?recs (units ! i)) = map Some starts" "sorted starts" by blast
    with i show "\<exists>recs starts. recs = ?recs (units ! i) \<and>
           ?outs ! i = model_dump (units ! i) @ [(''selects'', PList recs)] \<and>
           map start_char_in_unit recs = map Some starts \<and> sorted starts"
      by (intro exI[of _ "?recs (units ! i)"] exI[of _ starts]) simp
  qed
  then show "\<exists>outs. remediate_array units = Inr outs \<and> length outs = length units \<and>
      (\<forall>i<length units.
         \<exists>recs starts. recs = ?recs (units ! i) \<and>
           outs ! i = model_dump (units ! i) @ [(''selects'', PList recs)] \<and>
           map start_char_in_unit recs = map Some starts \<and> sorted starts)"
    using remediate_array_eq[of units] by (intro exI[of _ ?outs]) simp
qed (simp_all add: model_dump_def)

theorem endpoints_keep_units_witness:
  "remediate_mb_txns
     [example_unit ''SUBMIT MB11. SUBMIT mb01'',
      \<lparr> pgm_name = ''P'', inc_name = ''I'', type = ''CLAS'', name = Some ''M'',
        class_implementation = Some ''ZCL'', start_line = Some 3, end_line = Some 9, code = None \<rparr>] =
     Inr [model_dump (example_unit ''SUBMIT MB11. SUBMIT mb01'') @
            [(''mb_txn_usage'', PList
               [mb_metadata \<lparr> full = Some ''SUBMIT MB11.'', stmt = ''SUBMIT'', txn = Some ''MB11'',
                              suggested_statement = ''SUBMIT MIGO.'', span = (0, 12) \<rparr>,
                mb_metadata \<lparr> full = Some ''SUBMIT mb01'', stmt = ''SUBMIT'', txn = Some ''mb01'',
                              suggested_statement = ''SUBMIT MIGO.'', span = (13, 24) \<rparr>])],
          [(''pgm_name'', PStr ''P''), (''inc_name'', PStr ''I''), (''type'', PStr ''CLAS''),
           (''name'', PStr ''M''), (''class_implementation'', PStr ''ZCL''),
           (''start_line'', PInt 3), (''end_line'', PInt 9), (''code'', PNone),
           (''mb_txn_usage'', PList [])]] \<and>
   remediate_array
     [example_unit ''SELECT a FROM vbrp INTO b. SELECT c FROM VBRK INTO TABLE d.'',
      \<lparr> pgm_name = ''P'', inc_name = ''I'', type = ''CLAS'', name = Some ''M'',
        class_implementation = Some ''ZCL'', start_line = Some 3, end_line = Some 9, code = None \<rparr>] =
     Inr [model_dump (example_unit ''SELECT a FROM vbrp INTO b. SELECT c FROM VBRK INTO TABLE d.'') @
            [(''selects'', PList
               [sel_info \<lparr> sel_text = Some ''SELECT a FROM vbrp INTO b'', table = Some ''vbrp'',
                           target_type = ''wa'', target_name = Some ''b'', span = (0, 26) \<rparr>
                  (Some ''SELECT a FROM vbrp WHERE VBRP-DRAFT = SPACE INTO b''),
                sel_info \<lparr> sel_text = Some ''SELECT c FROM VBRK INTO TABLE d'', table = Some ''VBRK'',
                           target_type = ''itab'', target_name = Some ''d'', span = (27, 59) \<rparr>
                  (Some ''SELECT c FROM VBRK WHERE VBRK-DRAFT = SPACE INTO TABLE d'')])],
          [(''pgm_name'', PStr ''P''), (''inc_name'', PStr ''I''), (''type'', PStr ''CLAS''),
           (''name'', PStr ''M''), (''class_implementation'', PStr ''ZCL''),
           (''start_line'', PInt 3), (''end_line'', PInt 9), (''code'', PNone),
           (''selects'', PList [])]] \<and>
   sorted [0 :: int, 13]"
proof -
  let ?u2 = "\<lparr> pgm_name = ''P'', inc_name = ''I'', type = ''CLAS'', name = Some ''M'',
        class_implementation = Some ''ZCL'', start_line = Some 3, end_line = Some 9, code = None \<rparr>"
  let ?T = "''SUBMIT MB11. SUBMIT mb01''"
  let ?m1 = "\<lparr> full = Some ''SUBMIT MB11.'', stmt = ''SUBMIT'', txn = Some ''MB11'',
                 suggested_statement = ''SUBMIT MIGO.'', span = (0, 12) \<rparr>"
  let ?m2 = "\<lparr> full = Some ''SUBMIT mb01'', stmt = ''SUBMIT'', txn = Some ''mb01'',
                 suggested_statement = ''SUBMIT MIGO.'', span = (13, 24) \<rparr>"
  have e1: "remediate_mb_txns [example_unit ?T, ?u2] =
     Inr [model_dump (example_unit ?T) @ [(''mb_txn_usage'', PList [mb_metadata ?m1, mb_metadata ?m2])],
          [(''pgm_name'', PStr ''P''), (''inc_name'', PStr ''I''), (''type'', PStr ''CLAS''),
           (''name'', PStr ''M''), (''class_implementation'', PStr ''ZCL''),
           (''start_line'', PInt 3), (''end_line'', PInt 9), (''code'', PNone),
           (''mb_txn_usage'', PList [])]]"
    by code_simp
  have e2: "remediate_array
     [example_unit ''SELECT a FROM vbrp INTO b. SELECT c FROM VBRK INTO TABLE d.'', ?u2] =
     Inr [model_dump (example_unit ''SELECT a FROM vbrp INTO b. SELECT c FROM VBRK INTO TABLE d.'') @
            [(''selects'', PList
               [sel_info \<lparr> sel_text = Some ''SELECT a FROM vbrp INTO b'', table = Some ''vbrp'',
                           target_type = ''wa'', target_name = Some ''b'', span = (0, 26) \<rparr>
                  (Some ''SELECT a FROM vbrp WHERE VBRP-DRAFT = SPACE INTO b''),
                sel_info \<lparr> sel_text = Some ''SELECT c FROM VBRK INTO TABLE d'', table = Some ''VBRK'',
                           target_type = ''itab'', target_name = Some ''d'', span = (27, 59) \<rparr>
                  (Some ''SELECT c FROM VBRK WHERE VBRK-DRAFT = SPACE INTO TABLE d'')])],
          [(''pgm_name'', PStr ''P''), (''inc_name'', PStr ''I''), (''type'', PStr ''CLAS''),
           (''name'', PStr ''M''), (''class_implementation'', PStr ''ZCL''),
           (''start_line'', PInt 3), (''end_line'', PInt 9), (''code'', PNone),
           (''selects'', PList [])]]"
    by code_simp
  have f: "find_mb_txn_usage ?T = Inr [?m1, ?m2]" by code_simp
  have c: "code_or_empty (example_unit ?T) = ?T" by (simp add: code_or_empty_def example_unit_def)
  from endpoints_keep_units[of "[example_unit ?T, ?u2]"] obtain outs where
    o: "\<forall>i<length [example_unit ?T, ?u2].
         \<exists>ms starts. find_mb_txn_usage (code_or_empty ([example_unit ?T, ?u2] ! i)) = Inr ms \<and>
           outs ! i = model_dump ([example_unit ?T, ?u2] ! i) @ [(''mb_txn_usage'', PList (map mb_metadata ms))] \<and>
           map start_char_in_unit (map mb_metadata ms) = map Some starts \<and> sorted starts"
    by blast
  then have "\<exists>ms starts. find_mb_txn_usage (code_or_empty ([example_unit ?T, ?u2] ! 0)) = Inr ms \<and>
           outs ! 0 = model_dump ([example_unit ?T, ?u2] ! 0) @ [(''mb_txn_usage'', PList (map mb_metadata ms))] \<and>
           map start_char_in_unit (map mb_metadata ms) = map Some starts \<and> sorted starts"
    by (simp del: nth_Cons_0)
  then obtain ms starts where
    m: "find_mb_txn_usage (code_or_empty (example_unit ?T)) = Inr ms"
       "map start_char_in_unit (map mb_metadata ms) = map Some starts" "sorted starts"
    by auto
  from m(1) f c have "ms = [?m1, ?m2]" by simp
  with m(2) have "map Some starts = [Some 0, Some 13]" by (simp add: mb_metadata_def)
  then have "starts = [0, 13]" by (auto simp: map_eq_Cons_conv)
  with m(3) have s: "sorted [0 :: int, 13]" by simp
  show ?thesis by (intro conjI e1 e2 s)
qed

section \<open>Splicing the replacements\<close>

text \<open>
  C7, as worded, for every list of pairwise non-overlapping pairs whose spans lie within
  the text: not so when two spans start at the same offset, which an empty span allows.
  In \<^verbatim>\<open>abcd\<close> the empty span \<^verbatim>\<open>(1, 1)\<close> and the span \<^verbatim>\<open>(1, 3)\<close> lie within the text and share
  no character. The sort is stable, so the loop first inserts \<^verbatim>\<open>XY\<close> at offset 1, giving
  \<^verbatim>\<open>aXYbcd\<close>, and then replaces the characters 1 and 2 of that text, which are now
  \<^verbatim>\<open>XY\<close>: the result is \<^verbatim>\<open>aZbcd\<close>, in which \<^verbatim>\<open>bc\<close> is still there and \<^verbatim>\<open>XY\<close> is gone, where
  the text with each span's substring replaced is \<^verbatim>\<open>aXYZd\<close>.
\<close>

theorem splice_same_start_counterexample:
  "list_all (within ''abcd'') (map fst [((1, 1), ''XY''), ((1, 3), ''Z'')]) \<and>
   non_overlapping (map fst [((1, 1), ''XY''), ((1, 3), ''Z'')]) \<and>
   apply_span_replacements ''abcd'' [((1, 1), ''XY''), ((1, 3), ''Z'')] = ''aZbcd'' \<and>
   replaced ''abcd'' [((1, 1), ''XY''), ((1, 3), ''Z'')] = ''aXYZd'' \<and>
   apply_span_replacements ''abcd'' [((1, 1), ''XY''), ((1, 3), ''Z'')]
     \<noteq> replaced ''abcd'' [((1, 1), ''XY''), ((1, 3), ''Z'')]"
proof -
  have 1: "list_all (within ''abcd'') (map fst [((1, 1), ''XY''), ((1, 3), ''Z'')])"
    by (simp add: within_def)
  have 2: "non_overlapping (map fst [((1, 1), ''XY''), ((1, 3), ''Z'')])"
    by (simp add: disjoint_spans_def)
  have 3: "apply_span_replacements ''abcd'' [((1, 1), ''XY''), ((1, 3), ''Z'')] = ''aZbcd''"
    by code_simp
  have 4: "replaced ''abcd'' [((1, 1), ''XY''), ((1, 3), ''Z'')] = ''aXYZd''"
    by code_simp
  have 5: "apply_span_replacements ''abcd'' [((1, 1), ''XY''), ((1, 3), ''Z'')]
             \<noteq> replaced ''abcd'' [((1, 1), ''XY''), ((1, 3), ''Z'')]"
    unfolding 3 4 by simp
  show ?thesis by (intro conjI 1 2 3 4 5)
qed

text \<open>
  C7, for pairs no two of which start at the same offset (as it is for spans that are
  not empty and do not overlap, those of the matches of \<^verbatim>\<open>SELECT_RE\<close> among them). For
  every text and every list of pairs whose spans lie within the text, do not overlap
  pairwise and start at pairwise different offsets, in whatever order the list gives
  them, the loop of \<^verbatim>\<open>apply_span_replacements\<close> over the pairs sorted by span start
  descending, splicing \<^verbatim>\<open>out[:s] + r + out[e:]\<close> for each, returns the text with each
  span's substring replaced by its paired replacement and everything outside the spans
  kept.
\<close>

theorem apply_span_replacements_replaced:
  assumes w: "list_all (within source) (map fst repls)"
    and n: "non_overlapping (map fst repls)"
    and d: "distinct (map (\<lambda>x. fst (fst x)) repls)"
  shows "apply_span_replacements source repls = replaced source repls"
proof -
  let ?key = "\<lambda>x :: (int \<times> int) \<times> string. fst (fst x)"
  let ?asc = "sort_key ?key repls"
  from w have w': "\<forall>x\<in>set repls. within source (fst x)"
    by (simp add: list_all_iff)
  from d have dr: "distinct repls" and inj: "inj_on ?key (set repls)"
    by (simp_all add: distinct_map)
  have "chained 0 (length source) ?asc"
  proof (rule sorted_chained)
    show "sorted (map ?key ?asc)" by (rule sorted_sort_key)
    show "distinct (map ?key ?asc)" using dr inj by (simp add: distinct_map)
    show "\<forall>x\<in>set ?asc. within source (fst x)" using w' by simp
    show "\<forall>x\<in>set ?asc. \<forall>y\<in>set ?asc. x \<noteq> y \<longrightarrow> disjoint_spans (fst x) (fst y)"
      using non_overlapping_pairs[OF n dr] by simp
    show "\<forall>x\<in>set ?asc. 0 \<le> ?key x" using w' by (simp add: within_def)
    show "0 \<le> int (length source)" by simp
  qed
  then have "foldr (\<lambda>x out. splice_step out x) ?asc source
               = take (nat 0) source @ splice_from (nat 0) source ?asc"
    by (rule foldr_chained[OF order_refl])
  then show ?thesis
    by (simp add: apply_span_replacements_foldr sort_key_rev_distinct[OF d] replaced_def)
qed

theorem apply_span_replacements_replaced_witness:
  "list_all (within ''abcdef'') (map fst [((3, 5), ''YZ''), ((0, 2), ''X''), ((5, 6), '''')]) \<and>
   non_overlapping (map fst [((3, 5), ''YZ''), ((0, 2), ''X''), ((5, 6), '''')]) \<and>
   distinct (map (\<lambda>x. fst (fst x)) [((3 :: int, 5 :: int), ''YZ''), ((0, 2), ''X''), ((5, 6), '''')]) \<and>
   apply_span_replacements ''abcdef'' [((3, 5), ''YZ''), ((0, 2), ''X''), ((5, 6), '''')] = ''XcYZ'' \<and>
   replaced ''abcdef'' [((3, 5), ''YZ''), ((0, 2), ''X''), ((5, 6), '''')] = ''XcYZ''"
proof -
  let ?R = "[((3 :: int, 5 :: int), ''YZ''), ((0, 2), ''X''), ((5, 6), '''')]"
  have 1: "list_all (within ''abcdef'') (map fst ?R)" by (simp add: within_def)
  have 2: "non_overlapping (map fst ?R)" by (simp add: disjoint_spans_def)
  have 3: "distinct (map (\<lambda>x. fst (fst x)) ?R)" by simp
  have 5: "replaced ''abcdef'' ?R = ''XcYZ''" by code_simp
  from apply_span_replacements_replaced[OF 1 2 3] 5
  have 4: "apply_span_replacements ''abcdef'' ?R = ''XcYZ''" by simp
  show ?thesis by (intro conjI 1 2 3 4 5)
qed

end
